theory Spec2Isabelle
  imports
    Main
    "HOL-Library.Char_ord"
    "HOL-Library.List_Lexorder"
    "HOL-Library.Sublist"
    "HOL-Library.AList"
    "HOL-Library.Product_Lexorder"
    "HOL-Library.Multiset"
begin

section \<open>Discovery document model\<close>

text \<open>
  Go strings are byte sequences, compared bytewise; they are modelled as \<open>string\<close>
  (lists of 8-bit characters) with the lexicographic order on lists over the byte order
  on characters. A Go map that the generator ranges over (properties, parameters, methods,
  resources) is an association list whose order stands for the iteration order of one run;
  the schema table \<open>allSchemas\<close> is only ever looked up by name and is a partial function.
  A nil pointer field (\<open>Items\<close>, \<open>AdditionalProperties\<close>, \<open>Annotations\<close>, \<open>Request\<close>, \<open>Response\<close>) is
  \<open>None\<close>; the values stored in the maps are taken to be non-nil, as they are for every
  document whose JSON has no \<open>null\<close> entry. \<open>Request\<close> and \<open>Response\<close> hold the \<open>$ref\<close> of the
  \<open>SchemaRef\<close> they point to. Fields that generation never reads (paths, HTTP verbs,
  scopes, media upload, enum descriptions and the like) are left out.
\<close>

datatype Schema = Schema
  (ID: string)
  (Type: string)
  (Format: string)
  (Description: string)
  (Properties: "(string \<times> Schema) list")
  (Items: "Schema option")
  (AdditionalProperties: "Schema option")
  (Ref: string)
  (Default: string)
  (Enum: "string list")
  (Required: bool)
  (ReadOnly: bool)
  (Annotations: "string list option")

type_synonym schemas = "string \<rightharpoonup> Schema"

record Parameter =
  pType :: string
  pDescription :: string
  pRequired :: bool
  pRepeated :: bool
  pDefault :: string
  pEnum :: "string list"
  pFormat :: string

record Method =
  mDescription :: string
  Parameters :: "(string \<times> Parameter) list"
  ParameterOrder :: "string list"
  Request :: "string option"
  Response :: "string option"

datatype Resource = Resource
  (rMethods: "(string \<times> Method) list")
  (rResources: "(string \<times> Resource) list")

record Document =
  dName :: string
  dVersion :: string
  dTitle :: string
  dSchemas :: schemas
  dResources :: "(string \<times> Resource) list"
  dMethods :: "(string \<times> Method) list"

section \<open>Type resolution\<close>



subsection \<open>Exported identifiers\<close>

text \<open>\<open>strings.ReplaceAll old new s\<close> for a non-empty \<open>old\<close>: non-overlapping occurrences
  are replaced from left to right. Every call in the generator passes a non-empty literal.\<close>

fun replaceAll :: "string \<Rightarrow> string \<Rightarrow> string \<Rightarrow> string" where
  "replaceAll old new [] = []"
| "replaceAll old new (c # cs) =
     (if old \<noteq> [] \<and> prefix old (c # cs)
      then new @ replaceAll old new (drop (length old) (c # cs))
      else c # replaceAll old new cs)"

definition asciiSpace :: "char \<Rightarrow> bool" where
  "asciiSpace c \<longleftrightarrow> c \<in> {CHR 0x09, CHR 0x0A, CHR 0x0B, CHR 0x0C, CHR 0x0D, CHR 0x20}"






subsection \<open>Property types\<close>

text \<open>\<open>PropertyInfo.resolveType\<close>; \<open>allSchemas\<close> is the receiver's schema table.\<close>

lemma size_Items [termination_simp]: "Items s = Some x \<Longrightarrow> size x < size s"
  by (cases s) simp

lemma size_AdditionalProperties [termination_simp]:
  "AdditionalProperties s = Some x \<Longrightarrow> size x < size s"
  by (cases s) simp

lemma size_Properties [termination_simp]:
  "(n, x) \<in> set (Properties s) \<Longrightarrow> size x < size s"
proof (cases s)
  case (Schema i t f d ps it ap r df en rq ro an)
  assume "(n, x) \<in> set (Properties s)"
  then have "(n, x) \<in> set ps" using Schema by simp
  then have "size x < Suc (size_list (size_prod (\<lambda>_. 0) size) ps)"
    by (induction ps) auto
  then show ?thesis using Schema by simp
qed


record PropertyInfo =
  piName :: string
  piProperty :: Schema
  piRequired :: bool
  piAllSchemas :: schemas


section \<open>Ordering of parameters and properties\<close>

text \<open>\<open>sort.Slice\<close> is library code: it returns a permutation of the slice that is sorted
  for its comparison function. Both comparison functions below are strict total orders on
  entries with distinct names, so that permutation is unique (lemma \<open>sortSlice_unique\<close>)
  and insertion sort computes it.\<close>

fun insertBy :: "('a \<Rightarrow> 'a \<Rightarrow> bool) \<Rightarrow> 'a \<Rightarrow> 'a list \<Rightarrow> 'a list" where
  "insertBy lt x [] = [x]"
| "insertBy lt x (y # ys) = (if lt y x then y # insertBy lt x ys else x # y # ys)"

definition sortSlice :: "('a \<Rightarrow> 'a \<Rightarrow> bool) \<Rightarrow> 'a list \<Rightarrow> 'a list" where
  "sortSlice lt xs = foldr (insertBy lt) xs []"

text \<open>\<open>indexOf\<close>: the first position of \<open>s\<close>, or -1.\<close>

fun indexOfFrom :: "int \<Rightarrow> string list \<Rightarrow> string \<Rightarrow> int" where
  "indexOfFrom i [] s = - 1"
| "indexOfFrom i (v # vs) s = (if v = s then i else indexOfFrom (i + 1) vs s)"

definition indexOf :: "string list \<Rightarrow> string \<Rightarrow> int" where
  "indexOf slice s = indexOfFrom 0 slice s"

record MethodInfo =
  FullName :: string
  miMethod :: Method
  Prefix :: string
  StructPrefix :: string

record ParamInfo =
  paName :: string
  paParam :: Parameter

definition paramLess :: "MethodInfo \<Rightarrow> ParamInfo \<Rightarrow> ParamInfo \<Rightarrow> bool" where
  "paramLess m pi pj =
     (if pRequired (paParam pi) \<noteq> pRequired (paParam pj) then pRequired (paParam pi)
      else
        let iOrder = indexOf (ParameterOrder (miMethod m)) (paName pi);
            jOrder = indexOf (ParameterOrder (miMethod m)) (paName pj)
        in if iOrder \<noteq> jOrder then
             (if iOrder = - 1 then False
              else if jOrder = - 1 then True
              else iOrder < jOrder)
           else paName pi < paName pj)"

definition SortedParams :: "MethodInfo \<Rightarrow> ParamInfo list" where
  "SortedParams m =
     sortSlice (paramLess m)
       (map (\<lambda>(name, p). \<lparr>paName = name, paParam = p\<rparr>) (Parameters (miMethod m)))"

record SchemaInfo =
  siName :: string
  siSchema :: Schema
  siAllSchemas :: schemas
  RequiredSet :: "string set"

definition NewSchemaInfo :: "string \<Rightarrow> Schema \<Rightarrow> schemas \<Rightarrow> SchemaInfo" where
  "NewSchemaInfo name schema allSchemas =
     \<lparr>siName = name, siSchema = schema, siAllSchemas = allSchemas,
      RequiredSet = (case Annotations schema of None \<Rightarrow> {} | Some req \<Rightarrow> set req)\<rparr>"

definition propertyLess :: "PropertyInfo \<Rightarrow> PropertyInfo \<Rightarrow> bool" where
  "propertyLess pi pj =
     (if piRequired pi \<noteq> piRequired pj then piRequired pi
      else piName pi < piName pj)"

definition SortedProperties :: "SchemaInfo \<Rightarrow> PropertyInfo list" where
  "SortedProperties s =
     sortSlice propertyLess
       (map (\<lambda>(name, prop).
               \<lparr>piName = name, piProperty = prop,
                piRequired = (name \<in> RequiredSet s \<or> Required prop),
                piAllSchemas = siAllSchemas s\<rparr>)
            (Properties (siSchema s)))"

section \<open>Descriptions\<close>

text \<open>\<open>strings.TrimSpace\<close> removes leading and trailing white space as defined by Unicode.
  On bytes, these are the UTF-8 encodings of the code points for which \<open>unicode.IsSpace\<close>
  holds: the six ASCII ones, U+0085, U+00A0, U+1680, U+2000 to U+200A, U+2028, U+2029,
  U+202F, U+205F and U+3000. No continuation byte starts a rune, so stripping these byte
  sequences from both ends is what decoding runes from either end does.\<close>

definition unicodeSpaces :: "string list" where
  "unicodeSpaces =
     [[CHR 0x09], [CHR 0x0A], [CHR 0x0B], [CHR 0x0C], [CHR 0x0D], [CHR 0x20],
      [CHR 0xC2, CHR 0x85], [CHR 0xC2, CHR 0xA0],
      [CHR 0xE1, CHR 0x9A, CHR 0x80],
      [CHR 0xE2, CHR 0x80, CHR 0x80], [CHR 0xE2, CHR 0x80, CHR 0x81],
      [CHR 0xE2, CHR 0x80, CHR 0x82], [CHR 0xE2, CHR 0x80, CHR 0x83],
      [CHR 0xE2, CHR 0x80, CHR 0x84], [CHR 0xE2, CHR 0x80, CHR 0x85],
      [CHR 0xE2, CHR 0x80, CHR 0x86], [CHR 0xE2, CHR 0x80, CHR 0x87],
      [CHR 0xE2, CHR 0x80, CHR 0x88], [CHR 0xE2, CHR 0x80, CHR 0x89],
      [CHR 0xE2, CHR 0x80, CHR 0x8A],
      [CHR 0xE2, CHR 0x80, CHR 0xA8], [CHR 0xE2, CHR 0x80, CHR 0xA9],
      [CHR 0xE2, CHR 0x80, CHR 0xAF], [CHR 0xE2, CHR 0x81, CHR 0x9F],
      [CHR 0xE3, CHR 0x80, CHR 0x80]]"

lemma unicodeSpaces_nonempty: "p \<in> set unicodeSpaces \<Longrightarrow> p \<noteq> []"
  by (auto simp: unicodeSpaces_def)

function trimLeftSpace :: "string \<Rightarrow> string" where
  "trimLeftSpace s =
     (case find (\<lambda>p. prefix p s) unicodeSpaces of
        None \<Rightarrow> s
      | Some p \<Rightarrow> trimLeftSpace (drop (length p) s))"
  by pat_completeness auto
termination
proof (relation "measure length")
  fix s p
  assume "find (\<lambda>p. prefix p s) unicodeSpaces = Some p"
  then have "p \<in> set unicodeSpaces" "prefix p s"
    by (auto simp: find_Some_iff)
  then have "p \<noteq> []" "length p \<le> length s"
    by (auto simp: unicodeSpaces_nonempty prefix_length_le)
  then show "(drop (length p) s, s) \<in> measure length"
    by (cases p) auto
qed simp

function trimRightSpace :: "string \<Rightarrow> string" where
  "trimRightSpace s =
     (case find (\<lambda>p. suffix p s) unicodeSpaces of
        None \<Rightarrow> s
      | Some p \<Rightarrow> trimRightSpace (take (length s - length p) s))"
  by pat_completeness auto
termination
proof (relation "measure length")
  fix s p
  assume "find (\<lambda>p. suffix p s) unicodeSpaces = Some p"
  then have "p \<in> set unicodeSpaces" "suffix p s"
    by (auto simp: find_Some_iff)
  then have "p \<noteq> []" "length p \<le> length s"
    by (auto simp: unicodeSpaces_nonempty suffix_length_le)
  then show "(take (length s - length p) s, s) \<in> measure length"
    by (cases p) auto
qed simp

declare trimLeftSpace.simps [simp del] trimRightSpace.simps [simp del]

definition TrimSpace :: "string \<Rightarrow> string" where
  "TrimSpace s = trimRightSpace (trimLeftSpace s)"

fun stringsContains :: "string \<Rightarrow> string \<Rightarrow> bool" where
  "stringsContains [] sub = (sub = [])"
| "stringsContains (c # cs) sub = (prefix sub (c # cs) \<or> stringsContains cs sub)"

lemma replaceAll_match:
  "old \<noteq> [] \<Longrightarrow> prefix old s \<Longrightarrow>
   replaceAll old new s = new @ replaceAll old new (drop (length old) s)"
  by (cases s) auto

lemma replaceAll_nomatch:
  "\<not> prefix old (c # cs) \<Longrightarrow> replaceAll old new (c # cs) = c # replaceAll old new cs"
  by simp

lemma length_replaceAll_spaces:
  "length (replaceAll ''  '' '' '' s) \<le> length s"
  by (induction "''  ''" "'' ''" s rule: replaceAll.induct) auto

lemma length_replaceAll_spaces_less:
  "stringsContains s ''  '' \<Longrightarrow> length (replaceAll ''  '' '' '' s) < length s"
proof (induction "''  ''" "'' ''" s rule: replaceAll.induct)
  case 1
  then show ?case by simp
next
  case (2 c cs)
  show ?case
  proof (cases "prefix ''  '' (c # cs)")
    case True
    then obtain rest where r: "c # cs = ''  '' @ rest"
      by (auto simp: prefix_def)
    have "replaceAll ''  '' '' '' (c # cs) = '' '' @ replaceAll ''  '' '' '' (drop (length ''  '') (c # cs))"
      by (rule replaceAll_match) (simp, rule True)
    also have "drop (length ''  '') (c # cs) = rest" unfolding r by simp
    finally have "length (replaceAll ''  '' '' '' (c # cs)) = Suc (length (replaceAll ''  '' '' '' rest))"
      by simp
    moreover have "length (replaceAll ''  '' '' '' rest) \<le> length rest"
      by (rule length_replaceAll_spaces)
    moreover have "length (c # cs) = length rest + 2" using r by simp
    ultimately show ?thesis by linarith
  next
    case False
    then have "stringsContains cs ''  ''"
      using "2.prems" unfolding stringsContains.simps by blast
    then have "length (replaceAll ''  '' '' '' cs) < length cs"
      using False "2.hyps"(2) by blast
    moreover have "replaceAll ''  '' '' '' (c # cs) = c # replaceAll ''  '' '' '' cs"
      using False by (rule replaceAll_nomatch)
    ultimately show ?thesis by simp
  qed
qed

function collapseSpaces :: "string \<Rightarrow> string" where
  "collapseSpaces desc =
     (if stringsContains desc ''  '' then collapseSpaces (replaceAll ''  '' '' '' desc)
      else desc)"
  by pat_completeness auto
termination
  by (relation "measure length") (auto simp: length_replaceAll_spaces_less)

declare collapseSpaces.simps [simp del]

definition cleanDescription :: "string \<Rightarrow> string" where
  "cleanDescription desc =
     (let d1 = replaceAll [CHR 0x0A] '' '' desc;
          d2 = replaceAll [CHR 0x22] [CHR 0x27] d1;
          d3 = replaceAll [CHR 0x60] [CHR 0x27] d2;
          d4 = TrimSpace d3
      in collapseSpaces d4)"

definition Description :: "MethodInfo \<Rightarrow> string" where
  "Description m =
     (let desc = cleanDescription (mDescription (miMethod m)) in
      if length desc > 200 then take 197 desc @ ''...'' else desc)"

section \<open>Method collection\<close>

text \<open>The flattened method table is a Go map filled by assignment; it is an association
  list with one entry per key, \<open>AList.update\<close> being the assignment \<open>methods[name] = m\<close>.\<close>

fun collectMethods :: "string \<Rightarrow> Resource \<Rightarrow> (string \<times> Method) list \<Rightarrow> (string \<times> Method) list"
and collectSubResources ::
  "string \<Rightarrow> (string \<times> Resource) list \<Rightarrow> (string \<times> Method) list \<Rightarrow> (string \<times> Method) list"
where
  "collectMethods pfx (Resource ms rs) methods =
     collectSubResources pfx rs
       (fold (\<lambda>(methodName, m). AList.update (pfx @ ''.'' @ methodName) m) ms methods)"
| "collectSubResources pfx [] methods = methods"
| "collectSubResources pfx ((subName, subResource) # rs) methods =
     collectSubResources pfx rs (collectMethods (pfx @ ''.'' @ subName) subResource methods)"

definition AllMethods :: "Document \<Rightarrow> (string \<times> Method) list" where
  "AllMethods d =
     fold (\<lambda>(resourceName, resource). collectMethods resourceName resource) (dResources d)
       (fold (\<lambda>(name, m). AList.update name m) (dMethods d) [])"

text \<open>\<open>sort.Strings\<close> sorts in increasing byte order.\<close>

definition SortedMethodNames :: "Document \<Rightarrow> string list" where
  "SortedMethodNames d = sort (map fst (AllMethods d))"

section \<open>Schema dependency collection\<close>

text \<open>The set \<open>needed\<close> (a Go \<open>map[string]bool\<close> holding only \<open>true\<close>) is the list of its keys,
  a key being added only when absent. The recursion follows references through the schema
  table, so it is bounded by fuel: one unit is spent each time a schema not yet collected is
  entered, and \<open>None\<close> means the fuel ran out. Lemma \<open>collect_enough_fuel\<close> shows that the
  number of schemas in the table is always enough.\<close>

function (sequential) collectSchemaRefs :: "nat \<Rightarrow> string \<Rightarrow> schemas \<Rightarrow> string list \<Rightarrow> string list option"
and collectSchemaRefsFromSchema :: "nat \<Rightarrow> Schema \<Rightarrow> schemas \<Rightarrow> string list \<Rightarrow> string list option"
and collectProperties ::
  "nat \<Rightarrow> (string \<times> Schema) list \<Rightarrow> schemas \<Rightarrow> string list \<Rightarrow> string list option"
and collectOptional :: "nat \<Rightarrow> Schema option \<Rightarrow> schemas \<Rightarrow> string list \<Rightarrow> string list option"
where
  "collectSchemaRefs fuel schemaName allSchemas needed =
     (if schemaName \<in> set needed then Some needed
      else case allSchemas schemaName of
        None \<Rightarrow> Some needed
      | Some schema \<Rightarrow>
          (case fuel of
             0 \<Rightarrow> None
           | Suc fuel' \<Rightarrow>
               Option.bind (collectProperties fuel' (Properties schema) allSchemas (schemaName # needed))
                 (\<lambda>n1. Option.bind (collectOptional fuel' (Items schema) allSchemas n1)
                   (\<lambda>n2. collectOptional fuel' (AdditionalProperties schema) allSchemas n2))))"
| "collectSchemaRefsFromSchema fuel (Schema i t f d props items ap r df en rq ro an) allSchemas needed =
     Option.bind (if r \<noteq> [] then collectSchemaRefs fuel r allSchemas needed else Some needed)
       (\<lambda>n0. Option.bind (collectProperties fuel props allSchemas n0)
         (\<lambda>n1. Option.bind (collectOptional fuel items allSchemas n1)
           (\<lambda>n2. collectOptional fuel ap allSchemas n2)))"
| "collectProperties fuel [] allSchemas needed = Some needed"
| "collectProperties fuel ((name, prop) # props) allSchemas needed =
     Option.bind (collectSchemaRefsFromSchema fuel prop allSchemas needed)
       (\<lambda>n1. collectProperties fuel props allSchemas n1)"
| "collectOptional fuel None allSchemas needed = Some needed"
| "collectOptional fuel (Some schema) allSchemas needed =
     collectSchemaRefsFromSchema fuel schema allSchemas needed"
  by pat_completeness auto
termination
  by (relation "inv_image (less_than <*lex*> less_than)
        (\<lambda>x. case x of
           Inl (Inl (fuel, _)) \<Rightarrow> (fuel, 0)
         | Inl (Inr (fuel, s, _)) \<Rightarrow> (fuel, size s + 1)
         | Inr (Inl (fuel, ps, _)) \<Rightarrow> (fuel, size_list (size_prod (\<lambda>_. 0) size) ps + 1)
         | Inr (Inr (fuel, so, _)) \<Rightarrow> (fuel, size_option size so + 1))")
     auto

declare collectSchemaRefs.simps [simp del]

fun collectMethodRefs :: "nat \<Rightarrow> MethodInfo list \<Rightarrow> schemas \<Rightarrow> string list \<Rightarrow> string list option" where
  "collectMethodRefs fuel [] allSchemas needed = Some needed"
| "collectMethodRefs fuel (m # ms) allSchemas needed =
     Option.bind
       (case Request (miMethod m) of
          Some r \<Rightarrow> if r \<noteq> [] then collectSchemaRefs fuel r allSchemas needed else Some needed
        | None \<Rightarrow> Some needed)
       (\<lambda>n1. Option.bind
          (case Response (miMethod m) of
             Some r \<Rightarrow> if r \<noteq> [] then collectSchemaRefs fuel r allSchemas n1 else Some n1
           | None \<Rightarrow> Some n1)
          (\<lambda>n2. collectMethodRefs fuel ms allSchemas n2))"

definition collectSchemas :: "nat \<Rightarrow> MethodInfo list \<Rightarrow> schemas \<Rightarrow> SchemaInfo list option" where
  "collectSchemas fuel methods allSchemas =
     Option.bind (collectMethodRefs fuel methods allSchemas [])
       (\<lambda>needed.
          let names = sort needed in
          Some (concat (map (\<lambda>name. case allSchemas name of
                                       Some schema \<Rightarrow> [NewSchemaInfo name schema allSchemas]
                                     | None \<Rightarrow> [])
                            names)))"

section \<open>Generation\<close>

record GenerateOptions =
  PackageName :: string
  Methods :: "string list"
  oPrefix :: string
  oStructPrefix :: string
  GenerateSchema :: bool

record TemplateData =
  tPackageName :: string
  tAPIName :: string
  tAPITitle :: string
  tAPIVersion :: string
  tMethods :: "MethodInfo list"
  tSchemas :: schemas
  tSchemasToGen :: "SchemaInfo list"
  tAllSchemas :: schemas
  tGenerateSchema :: bool

text \<open>The three error returns of \<open>GenerateMCPTools\<close>; the payload is the missing name or the
  wrapped library error.\<close>

datatype gen_error =
  MethodNotFound string
| TemplateExecutionFailed string
| SyntaxErrors string

text \<open>The loop that looks every requested name up and wraps the method, returning at the
  first name that is not in the table.\<close>

fun selectMethods ::
  "(string \<times> Method) list \<Rightarrow> GenerateOptions \<Rightarrow> string list \<Rightarrow> MethodInfo list \<Rightarrow>
   gen_error + MethodInfo list" where
  "selectMethods allMethods opts [] methodsToGenerate = Inr methodsToGenerate"
| "selectMethods allMethods opts (name # names) methodsToGenerate =
     (case map_of allMethods name of
        None \<Rightarrow> Inl (MethodNotFound name)
      | Some m \<Rightarrow>
          selectMethods allMethods opts names
            (methodsToGenerate @
               [\<lparr>FullName = name, miMethod = m, Prefix = oPrefix opts,
                 StructPrefix = oStructPrefix opts\<rparr>]))"

text \<open>\<open>GenerateMCPTools\<close>. Executing the template and \<open>format.Source\<close> are library calls that
  may fail; they are the parameters \<open>execute\<close> and \<open>formatSource\<close>, with \<open>Inl\<close> the error. The
  result is the pair of the returned string and error; the outer \<open>None\<close> is fuel running out
  in schema collection.\<close>

definition GenerateMCPTools ::
  "nat \<Rightarrow> (TemplateData \<Rightarrow> string + string) \<Rightarrow> (string \<Rightarrow> string + string) \<Rightarrow>
   Document \<Rightarrow> GenerateOptions \<Rightarrow> (string \<times> gen_error option) option" where
  "GenerateMCPTools fuel execute formatSource doc opts0 =
     (let opts1 = (if PackageName opts0 = [] then opts0\<lparr>PackageName := ''tools''\<rparr> else opts0);
          opts2 = (if oPrefix opts1 = [] then opts1\<lparr>oPrefix := dName doc @ ''_''\<rparr> else opts1);
          opts = (if oStructPrefix opts2 = [] then opts2\<lparr>oStructPrefix := ''API''\<rparr> else opts2);
          allMethods = AllMethods doc;
          methodNames = (if length (Methods opts) = 0 then SortedMethodNames doc else Methods opts)
      in case selectMethods allMethods opts methodNames [] of
           Inl err \<Rightarrow> Some ([], Some err)
         | Inr methodsToGenerate \<Rightarrow>
             Option.bind
               (if GenerateSchema opts
                then collectSchemas fuel methodsToGenerate (dSchemas doc)
                else Some [])
               (\<lambda>schemasToGen.
                  let data = \<lparr>tPackageName = PackageName opts, tAPIName = dName doc,
                              tAPITitle = dTitle doc, tAPIVersion = dVersion doc,
                              tMethods = methodsToGenerate, tSchemas = dSchemas doc,
                              tSchemasToGen = schemasToGen, tAllSchemas = dSchemas doc,
                              tGenerateSchema = GenerateSchema opts\<rparr>
                  in case execute data of
                       Inl err \<Rightarrow> Some ([], Some (TemplateExecutionFailed err))
                     | Inr buf \<Rightarrow>
                         (case formatSource buf of
                            Inl err \<Rightarrow> Some (buf, Some (SyntaxErrors err))
                          | Inr formatted \<Rightarrow> Some (formatted, None))))"

section \<open>Reachable schemas\<close>

text \<open>The dependency relation the collector is compared with, read off the specification:
  a named schema depends on every named schema referenced from its properties, its array
  item schema or its additional-properties schema, through any depth of nesting
  (\<open>directRefs\<close>); the roots are the non-empty request and response references of the
  selected methods (\<open>methodRefs\<close>); \<open>reachableSchemas\<close> is the reflexive-transitive
  closure from the roots that exist in the schema table. The reference that a named schema
  carries at its own top level is not nested in any of its properties, items or
  additional properties and is no dependency in this sense (\<open>collectSchemaRefs\<close> does not
  read it either).\<close>

fun schemaRefs :: "Schema \<Rightarrow> string set" where
  "schemaRefs (Schema i t f d props items ap r df en rq ro an) =
     (if r \<noteq> [] then {r} else {}) \<union>
     (\<Union>(n, p) \<in> set props. schemaRefs p) \<union>
     (case items of None \<Rightarrow> {} | Some s \<Rightarrow> schemaRefs s) \<union>
     (case ap of None \<Rightarrow> {} | Some s \<Rightarrow> schemaRefs s)"

definition directRefs :: "Schema \<Rightarrow> string set" where
  "directRefs s =
     (\<Union>(n, p) \<in> set (Properties s). schemaRefs p) \<union>
     (case Items s of None \<Rightarrow> {} | Some x \<Rightarrow> schemaRefs x) \<union>
     (case AdditionalProperties s of None \<Rightarrow> {} | Some x \<Rightarrow> schemaRefs x)"

definition refEdges :: "schemas \<Rightarrow> (string \<times> string) set" where
  "refEdges allSchemas =
     {(a, b). \<exists>s. allSchemas a = Some s \<and> b \<in> directRefs s \<and> b \<in> dom allSchemas}"

definition methodRefs :: "MethodInfo list \<Rightarrow> string set" where
  "methodRefs methods =
     {r. r \<noteq> [] \<and> (\<exists>m \<in> set methods. Request (miMethod m) = Some r \<or> Response (miMethod m) = Some r)}"

definition reachableSchemas :: "schemas \<Rightarrow> string set \<Rightarrow> string set" where
  "reachableSchemas allSchemas roots = (refEdges allSchemas)\<^sup>* `` (roots \<inter> dom allSchemas)"

section \<open>Enumeration order\<close>







section \<open>Notions used in the proofs\<close>

text \<open>The three replacements at the start of \<open>cleanDescription\<close> act on single bytes.\<close>

definition normalizeByte :: "char \<Rightarrow> char" where
  "normalizeByte c =
     (if c = CHR 0x0A then CHR '' ''
      else if c = CHR 0x22 \<or> c = CHR 0x60 then CHR 0x27
      else c)"

text \<open>The invariant of one traversal step that starts with the collected names \<open>N\<close>, follows
  the references \<open>R\<close> and ends with \<open>N'\<close>: nothing is lost, the references that exist are
  collected, every newly collected name has all its dependencies collected, and everything
  new is reachable from \<open>R\<close>.\<close>

definition step_ok :: "schemas \<Rightarrow> string set \<Rightarrow> string list \<Rightarrow> string list \<Rightarrow> bool" where
  "step_ok all R N N' \<longleftrightarrow>
     set N \<subseteq> set N' \<and>
     R \<inter> dom all \<subseteq> set N' \<and>
     (\<forall>x \<in> set N' - set N. refEdges all `` {x} \<subseteq> set N') \<and>
     set N' \<subseteq> set N \<union> reachableSchemas all R"

text \<open>Both comparison functions compare a key: requiredness first (required before not),
  for parameters then the position in the parameter order (names absent from it after
  all positions), then the name.\<close>

definition paramKey :: "MethodInfo \<Rightarrow> ParamInfo \<Rightarrow> bool \<times> nat \<times> string" where
  "paramKey m p =
     (\<not> pRequired (paParam p),
      (if indexOf (ParameterOrder (miMethod m)) (paName p) = - 1
       then length (ParameterOrder (miMethod m))
       else nat (indexOf (ParameterOrder (miMethod m)) (paName p))),
      paName p)"

definition propertyKey :: "PropertyInfo \<Rightarrow> bool \<times> string" where
  "propertyKey p = (\<not> piRequired p, piName p)"

text \<open>The entries that \<open>SortedParams\<close> and \<open>SortedProperties\<close> sort, in the enumeration order
  of the map.\<close>

definition paramEntries :: "MethodInfo \<Rightarrow> ParamInfo list" where
  "paramEntries m = map (\<lambda>(name, p). \<lparr>paName = name, paParam = p\<rparr>) (Parameters (miMethod m))"

definition propertyEntries :: "SchemaInfo \<Rightarrow> PropertyInfo list" where
  "propertyEntries s =
     map (\<lambda>(name, prop).
               \<lparr>piName = name, piProperty = prop,
                piRequired = (name \<in> RequiredSet s \<or> Required prop),
                piAllSchemas = siAllSchemas s\<rparr>)
         (Properties (siSchema s))"

section \<open>Example documents\<close>

text \<open>Go composite literals with every other field at its zero value, for writing down
  concrete documents.\<close>

definition scalarSchema :: "string \<Rightarrow> string \<Rightarrow> Schema" where
  "scalarSchema typ fmt = Schema [] typ fmt [] [] None None [] [] [] False False None"

definition refSchema :: "string \<Rightarrow> Schema" where
  "refSchema r = Schema [] [] [] [] [] None None r [] [] False False None"

definition objectSchema :: "(string \<times> Schema) list \<Rightarrow> Schema" where
  "objectSchema props = Schema [] ''object'' [] [] props None None [] [] [] False False None"

definition arraySchema :: "Schema \<Rightarrow> Schema" where
  "arraySchema items = Schema [] ''array'' [] [] [] (Some items) None [] [] [] False False None"

definition mapSchema :: "Schema \<Rightarrow> Schema" where
  "mapSchema vals = Schema [] ''object'' [] [] [] None (Some vals) [] [] [] False False None"

definition param :: "string \<Rightarrow> bool \<Rightarrow> bool \<Rightarrow> Parameter" where
  "param typ req rep =
     \<lparr>pType = typ, pDescription = [], pRequired = req, pRepeated = rep, pDefault = [],
      pEnum = [], pFormat = []\<rparr>"

definition methodWithDescription :: "string \<Rightarrow> MethodInfo" where
  "methodWithDescription d =
     \<lparr>FullName = ''videos.list'',
      miMethod = \<lparr>mDescription = d, Parameters = [], ParameterOrder = [],
                  Request = None, Response = None\<rparr>,
      Prefix = ''youtube_'', StructPrefix = ''API''\<rparr>"

definition methodWithRefs :: "string option \<Rightarrow> string option \<Rightarrow> MethodInfo" where
  "methodWithRefs req resp =
     \<lparr>FullName = ''videos.list'',
      miMethod = \<lparr>mDescription = [], Parameters = [], ParameterOrder = [],
                  Request = req, Response = resp\<rparr>,
      Prefix = ''youtube_'', StructPrefix = ''API''\<rparr>"

text \<open>A schema table with a cycle through two schemas and a schema that refers to itself.\<close>

definition cyclicSchemas :: schemas where
  "cyclicSchemas =
     [''Channel'' \<mapsto> objectSchema [(''owner'', refSchema ''Account'')],
      ''Account'' \<mapsto> objectSchema [(''channels'', arraySchema (refSchema ''Channel''))],
      ''Comment'' \<mapsto> objectSchema [(''parent'', refSchema ''Comment'')]]"

text \<open>A response that is an array of a reference, a request that is a map of a reference, an
  unrelated schema, and a reference \<open>Missing\<close> to a schema that is not in the table.\<close>

definition listSchemas :: schemas where
  "listSchemas =
     [''VideoList'' \<mapsto> arraySchema (refSchema ''Video''),
      ''Labels'' \<mapsto> mapSchema (refSchema ''Label''),
      ''Video'' \<mapsto> objectSchema [(''id'', scalarSchema ''string'' []),
                                      (''thumb'', refSchema ''Missing'')],
      ''Label'' \<mapsto> objectSchema [(''text'', scalarSchema ''string'' [])],
      ''Playlist'' \<mapsto> objectSchema [(''id'', scalarSchema ''string'' [])]]"

definition testDocument :: Document where
  "testDocument =
     \<lparr>dName = ''youtube'', dVersion = ''v3'', dTitle = ''YouTube Data API'',
      dSchemas = listSchemas,
      dResources =
        [(''videos'',
          Resource
            [(''list'', \<lparr>mDescription = ''List videos'', Parameters = [], ParameterOrder = [],
                          Request = None, Response = Some ''VideoList''\<rparr>)]
            [])],
      dMethods = []\<rparr>"

definition testOptions :: "string list \<Rightarrow> bool \<Rightarrow> GenerateOptions" where
  "testOptions ms gs =
     \<lparr>PackageName = [], Methods = ms, oPrefix = [], oStructPrefix = [], GenerateSchema = gs\<rparr>"

text \<open>Stand-ins for the two library calls: a template execution that succeeds or fails, a
  formatter that succeeds or fails.\<close>

definition executeOk :: "TemplateData \<Rightarrow> string + string" where
  "executeOk data = Inr (''package '' @ tPackageName data)"

definition executeFail :: "TemplateData \<Rightarrow> string + string" where
  "executeFail data = Inl ''template: error calling method''"

definition formatOk :: "string \<Rightarrow> string + string" where
  "formatOk src = Inr (src @ [CHR 0x0A])"

definition formatFail :: "string \<Rightarrow> string + string" where
  "formatFail src = Inl ''1:1: expected declaration''"

text \<open>The schema of the repository's ordering test, for any enumeration \<open>ps\<close> of its
  properties.\<close>

definition exampleProperties :: "(string \<times> Schema) list" where
  "exampleProperties =
     [(''zebra'', scalarSchema ''string'' []),
      (''alpha'', scalarSchema ''string'' []),
      (''required'', Schema [] ''string'' [] [] [] None None [] [] [] True False None),
      (''beta'', scalarSchema ''string'' [])]"

definition exampleSchema :: "(string \<times> Schema) list \<Rightarrow> Schema" where
  "exampleSchema ps =
     Schema ''TestSchema'' ''object'' [] [] ps None None [] [] [] False False (Some [''required''])"

definition methodWithParams :: "(string \<times> Parameter) list \<Rightarrow> string list \<Rightarrow> MethodInfo" where
  "methodWithParams ps order =
     \<lparr>FullName = ''videos.list'',
      miMethod = \<lparr>mDescription = [], Parameters = ps, ParameterOrder = order,
                  Request = None, Response = None\<rparr>,
      Prefix = ''youtube_'', StructPrefix = ''API''\<rparr>"









section \<open>Facts about sorting and exported names\<close>





section \<open>Facts about description cleaning\<close>

lemma replaceAll_removes: "c \<notin> set new \<Longrightarrow> c \<notin> set (replaceAll [c] new s)"
  by (induction "[c]" new s rule: replaceAll.induct) auto

lemma set_replaceAll: "set (replaceAll old new s) \<subseteq> set s \<union> set new"
proof (induction old new s rule: replaceAll.induct)
  case (1 old new)
  then show ?case by simp
next
  case (2 old new c cs)
  have "set (drop (length old) (c # cs)) \<subseteq> set (c # cs)" by (rule set_drop_subset)
  with 2 show ?case by (auto simp del: drop.simps drop_Suc_Cons)
qed

lemma set_trimLeftSpace: "set (trimLeftSpace s) \<subseteq> set s"
proof (induction s rule: trimLeftSpace.induct)
  case (1 s)
  show ?case
  proof (cases "find (\<lambda>p. prefix p s) unicodeSpaces")
    case None
    then show ?thesis by (simp add: trimLeftSpace.simps [of s])
  next
    case (Some p)
    have "set (drop (length p) s) \<subseteq> set s" by (rule set_drop_subset)
    with 1 Some show ?thesis by (auto simp: trimLeftSpace.simps [of s])
  qed
qed

lemma set_trimRightSpace: "set (trimRightSpace s) \<subseteq> set s"
proof (induction s rule: trimRightSpace.induct)
  case (1 s)
  show ?case
  proof (cases "find (\<lambda>p. suffix p s) unicodeSpaces")
    case None
    then show ?thesis by (simp add: trimRightSpace.simps [of s])
  next
    case (Some p)
    have "set (take (length s - length p) s) \<subseteq> set s" by (rule set_take_subset)
    with 1 Some show ?thesis by (auto simp: trimRightSpace.simps [of s])
  qed
qed

lemma set_collapseSpaces: "set (collapseSpaces s) \<subseteq> set s \<union> {CHR '' ''}"
proof (induction s rule: collapseSpaces.induct)
  case (1 desc)
  show ?case
  proof (cases "stringsContains desc ''  ''")
    case True
    have "set (replaceAll ''  '' '' '' desc) \<subseteq> set desc \<union> set '' ''" by (rule set_replaceAll)
    with 1 True show ?thesis
      by (auto simp: collapseSpaces.simps [of desc])
  next
    case False
    then show ?thesis by (auto simp: collapseSpaces.simps [of desc])
  qed
qed

lemma collapseSpaces_no_double: "\<not> stringsContains (collapseSpaces s) ''  ''"
proof (induction s rule: collapseSpaces.induct)
  case (1 desc)
  then show ?case
    by (cases "stringsContains desc ''  ''")
       (simp_all add: collapseSpaces.simps [of desc])
qed

lemma collapseSpaces_funpow:
  "\<exists>n \<le> length s. collapseSpaces s = ((replaceAll ''  '' '' '') ^^ n) s"
proof (induction s rule: collapseSpaces.induct)
  case (1 desc)
  show ?case
  proof (cases "stringsContains desc ''  ''")
    case True
    then obtain n where n: "n \<le> length (replaceAll ''  '' '' '' desc)"
      "collapseSpaces (replaceAll ''  '' '' '' desc) = ((replaceAll ''  '' '' '') ^^ n) (replaceAll ''  '' '' '' desc)"
      using 1 by blast
    have "length (replaceAll ''  '' '' '' desc) < length desc"
      using True by (rule length_replaceAll_spaces_less)
    then have "Suc n \<le> length desc" using n(1) by simp
    moreover have "collapseSpaces desc = ((replaceAll ''  '' '' '') ^^ Suc n) desc"
      using True n(2) by (simp add: collapseSpaces.simps [of desc] funpow_swap1)
    ultimately show ?thesis by blast
  next
    case False
    then have "collapseSpaces desc = ((replaceAll ''  '' '' '') ^^ 0) desc"
      by (simp add: collapseSpaces.simps [of desc])
    then show ?thesis by blast
  qed
qed

lemma trimLeftSpace_no_prefix:
  "p \<in> set unicodeSpaces \<Longrightarrow> \<not> prefix p (trimLeftSpace s)"
proof (induction s rule: trimLeftSpace.induct)
  case (1 s)
  show ?case
  proof (cases "find (\<lambda>p. prefix p s) unicodeSpaces")
    case None
    then have "trimLeftSpace s = s" by (simp add: trimLeftSpace.simps [of s])
    moreover have "\<not> prefix p s" using None "1.prems" by (auto simp: find_None_iff)
    ultimately show ?thesis by simp
  next
    case (Some q)
    then show ?thesis using 1 by (simp add: trimLeftSpace.simps [of s])
  qed
qed

lemma trimRightSpace_no_suffix:
  "p \<in> set unicodeSpaces \<Longrightarrow> \<not> suffix p (trimRightSpace s)"
proof (induction s rule: trimRightSpace.induct)
  case (1 s)
  show ?case
  proof (cases "find (\<lambda>p. suffix p s) unicodeSpaces")
    case None
    then have "trimRightSpace s = s" by (simp add: trimRightSpace.simps [of s])
    moreover have "\<not> suffix p s" using None "1.prems" by (auto simp: find_None_iff)
    ultimately show ?thesis by simp
  next
    case (Some q)
    then show ?thesis using 1 by (simp add: trimRightSpace.simps [of s])
  qed
qed

lemma trimRightSpace_prefix: "prefix (trimRightSpace s) s"
proof (induction s rule: trimRightSpace.induct)
  case (1 s)
  show ?case
  proof (cases "find (\<lambda>p. suffix p s) unicodeSpaces")
    case None
    then show ?thesis by (simp add: trimRightSpace.simps [of s])
  next
    case (Some q)
    then have "prefix (trimRightSpace s) (take (length s - length q) s)"
      using 1 by (simp add: trimRightSpace.simps [of s])
    moreover have "prefix (take (length s - length q) s) s" by (rule take_is_prefix)
    ultimately show ?thesis by (rule prefix_order.trans)
  qed
qed

lemma TrimSpace_trimmed:
  assumes "p \<in> set unicodeSpaces"
  shows "\<not> prefix p (TrimSpace s)" and "\<not> suffix p (TrimSpace s)"
proof -
  show "\<not> prefix p (TrimSpace s)"
  proof
    assume "prefix p (TrimSpace s)"
    then have "prefix p (trimLeftSpace s)"
      unfolding TrimSpace_def using trimRightSpace_prefix prefix_order.trans by blast
    then show False using assms trimLeftSpace_no_prefix by blast
  qed
  show "\<not> suffix p (TrimSpace s)"
    unfolding TrimSpace_def using assms by (rule trimRightSpace_no_suffix)
qed

text \<open>One pass of the collapsing loop keeps the first and the last byte sequence.\<close>

lemma replaceAll_spaces_Nil_iff: "replaceAll [x, x] [x] s = [] \<longleftrightarrow> s = []"
  by (cases s) auto

lemma replaceAll_spaces_head_space:
  "prefix [x] (replaceAll [x, x] [x] s) \<Longrightarrow> prefix [x] s"
  by (cases s) (auto split: if_splits)

lemma replaceAll_spaces_prefix:
  "x \<notin> set p \<Longrightarrow> prefix p (replaceAll [x, x] [x] s) \<Longrightarrow> prefix p s"
proof (induction p arbitrary: s)
  case Nil
  then show ?case by simp
next
  case (Cons b q)
  then obtain c cs where s: "s = c # cs"
    by (cases s) auto
  have nm: "\<not> prefix [x, x] (c # cs)"
  proof
    assume m: "prefix [x, x] (c # cs)"
    have "replaceAll [x, x] [x] (c # cs) = [x] @ replaceAll [x, x] [x] (drop (length [x, x]) (c # cs))"
      by (rule replaceAll_match) (simp, rule m)
    then show False using Cons.prems s by auto
  qed
  then have "replaceAll [x, x] [x] (c # cs) = c # replaceAll [x, x] [x] cs"
    by (rule replaceAll_nomatch)
  then have "b = c" "prefix q (replaceAll [x, x] [x] cs)"
    using Cons.prems(2) s by auto
  moreover have "x \<notin> set q" using Cons.prems(1) by simp
  ultimately show ?case using Cons.IH s by simp
qed

lemma replaceAll_spaces_snoc:
  "c \<noteq> x \<Longrightarrow> replaceAll [x, x] [x] (u @ [c]) = replaceAll [x, x] [x] u @ [c]"
proof (induction "[x, x]" "[x]" u rule: replaceAll.induct)
  case 1
  then show ?case by simp
next
  case (2 a as)
  show ?case
  proof (cases "prefix [x, x] (a # as)")
    case True
    then obtain rest where r: "a # as = [x, x] @ rest" by (auto simp: prefix_def)
    have m1: "replaceAll [x, x] [x] (a # as) = [x] @ replaceAll [x, x] [x] (drop (length [x, x]) (a # as))"
      by (rule replaceAll_match) (simp, rule True)
    have pp: "prefix [x, x] ((a # as) @ [c])" using True by (rule prefix_prefix)
    have m2: "replaceAll [x, x] [x] ((a # as) @ [c]) =
                   [x] @ replaceAll [x, x] [x] (drop (length [x, x]) ((a # as) @ [c]))"
      by (rule replaceAll_match) (simp, rule pp)
    have d: "drop (length [x, x]) ((a # as) @ [c]) = drop (length [x, x]) (a # as) @ [c]"
      unfolding r by simp
    have "replaceAll [x, x] [x] (drop (length [x, x]) (a # as) @ [c]) =
          replaceAll [x, x] [x] (drop (length [x, x]) (a # as)) @ [c]"
      using "2.hyps"(1) True "2.prems" by blast
    then show ?thesis using m1 m2 d by simp
  next
    case False
    have "\<not> prefix [x, x] (a # (as @ [c]))"
    proof
      assume "prefix [x, x] (a # (as @ [c]))"
      then have ax: "a = x" and rest: "prefix [x] (as @ [c])"
        unfolding Cons_prefix_Cons by blast+
      show False
      proof (cases as)
        case Nil
        then show False using rest "2.prems" by simp
      next
        case (Cons a' as')
        then have "a' = x" using rest by simp
        then have "prefix [x, x] (a # as)" using ax Cons by simp
        then show False using False by blast
      qed
    qed
    then have "replaceAll [x, x] [x] (a # (as @ [c])) = a # replaceAll [x, x] [x] (as @ [c])"
      by (rule replaceAll_nomatch)
    moreover have "replaceAll [x, x] [x] (a # as) = a # replaceAll [x, x] [x] as"
      using False by (rule replaceAll_nomatch)
    moreover have "replaceAll [x, x] [x] (as @ [c]) = replaceAll [x, x] [x] as @ [c]"
      using "2.hyps"(2) False "2.prems" by blast
    ultimately show ?thesis by simp
  qed
qed

lemma replaceAll_spaces_last_space:
  "s \<noteq> [] \<Longrightarrow> last s = x \<Longrightarrow> last (replaceAll [x, x] [x] s) = x"
proof (induction "[x, x]" "[x]" s rule: replaceAll.induct)
  case 1
  then show ?case by simp
next
  case (2 c cs)
  show ?case
  proof (cases "prefix [x, x] (c # cs)")
    case True
    then obtain rest where r: "c # cs = [x, x] @ rest" by (auto simp: prefix_def)
    have m1: "replaceAll [x, x] [x] (c # cs) = [x] @ replaceAll [x, x] [x] (drop (length [x, x]) (c # cs))"
      by (rule replaceAll_match) (simp, rule True)
    have d: "drop (length [x, x]) (c # cs) = rest" unfolding r by simp
    show ?thesis
    proof (cases "rest = []")
      case True
      then show ?thesis using m1 d by simp
    next
      case False
      then have lr: "last rest = x" using "2.prems"(2) r by simp
      have ne: "[x, x] \<noteq> []" by simp
      have "last (replaceAll [x, x] [x] rest) = x"
        using "2.hyps"(1) [unfolded d] ne True False lr by blast
      moreover have "replaceAll [x, x] [x] rest \<noteq> []"
        using False by (simp add: replaceAll_spaces_Nil_iff)
      ultimately show ?thesis using m1 d by simp
    qed
  next
    case False
    then have m: "replaceAll [x, x] [x] (c # cs) = c # replaceAll [x, x] [x] cs"
      by (rule replaceAll_nomatch)
    show ?thesis
    proof (cases "cs = []")
      case True
      then show ?thesis using m "2.prems" by simp
    next
      case nonempty: False
      then have "last cs = x" using "2.prems"(2) by simp
      then have "last (replaceAll [x, x] [x] cs) = x"
        using "2.hyps"(2) False nonempty by blast
      moreover have "replaceAll [x, x] [x] cs \<noteq> []"
        using nonempty by (simp add: replaceAll_spaces_Nil_iff)
      ultimately show ?thesis using m by simp
    qed
  qed
qed

lemma replaceAll_spaces_suffix:
  "x \<notin> set p \<Longrightarrow> suffix p (replaceAll [x, x] [x] s) \<Longrightarrow> suffix p s"
proof (induction p arbitrary: s rule: rev_induct)
  case Nil
  then show ?case by simp
next
  case (snoc b q)
  have b: "b \<noteq> x" using snoc.prems(1) by auto
  have rne: "replaceAll [x, x] [x] s \<noteq> []" using snoc.prems(2) by (auto simp: suffix_def)
  then have "s \<noteq> []" by (simp add: replaceAll_spaces_Nil_iff)
  then obtain u c where s: "s = u @ [c]" by (cases s rule: rev_cases) auto
  have lastb: "last (replaceAll [x, x] [x] s) = b"
    using snoc.prems(2) by (auto simp: suffix_def)
  have c: "c \<noteq> x"
  proof
    assume "c = x"
    then have "last (replaceAll [x, x] [x] s) = x"
      using s by (intro replaceAll_spaces_last_space) simp_all
    then show False using lastb b by simp
  qed
  then have e: "replaceAll [x, x] [x] s = replaceAll [x, x] [x] u @ [c]"
    unfolding s by (rule replaceAll_spaces_snoc)
  then have "c = b" "suffix q (replaceAll [x, x] [x] u)"
    using snoc.prems(2) by (auto simp: suffix_def)
  moreover have "x \<notin> set q" using snoc.prems(1) by simp
  ultimately have "suffix q u" "c = b" using snoc.IH by blast+
  then show ?case unfolding s by (auto simp: suffix_def)
qed

lemma unicodeSpaces_cases:
  "p \<in> set unicodeSpaces \<Longrightarrow> p = '' '' \<or> CHR '' '' \<notin> set p"
  by (auto simp: unicodeSpaces_def)

lemma replaceAll_spaces_trimmed:
  assumes "\<forall>p \<in> set unicodeSpaces. \<not> prefix p s \<and> \<not> suffix p s"
  shows "\<forall>p \<in> set unicodeSpaces. \<not> prefix p (replaceAll ''  '' '' '' s) \<and>
           \<not> suffix p (replaceAll ''  '' '' '' s)"
proof
  fix p assume p: "p \<in> set unicodeSpaces"
  then consider "p = '' ''" | "CHR '' '' \<notin> set p" using unicodeSpaces_cases by blast
  then show "\<not> prefix p (replaceAll ''  '' '' '' s) \<and> \<not> suffix p (replaceAll ''  '' '' '' s)"
  proof cases
    case 1
    have np: "\<not> prefix '' '' s" and ns: "\<not> suffix '' '' s" using assms p 1 by auto
    have "\<not> prefix '' '' (replaceAll ''  '' '' '' s)"
      using np replaceAll_spaces_head_space by blast
    moreover have "\<not> suffix '' '' (replaceAll ''  '' '' '' s)"
    proof
      assume a: "suffix '' '' (replaceAll ''  '' '' '' s)"
      then have "replaceAll ''  '' '' '' s \<noteq> []" by (auto simp: suffix_def)
      then have "s \<noteq> []" by (simp add: replaceAll_spaces_Nil_iff)
      then obtain u c where s: "s = u @ [c]" by (cases s rule: rev_cases) auto
      then have "c \<noteq> CHR '' ''" using ns by (auto simp: suffix_def)
      then have "replaceAll ''  '' '' '' s = replaceAll ''  '' '' '' u @ [c]"
        unfolding s by (rule replaceAll_spaces_snoc)
      then show False using a \<open>c \<noteq> CHR '' ''\<close> by (auto simp: suffix_def)
    qed
    ultimately show ?thesis using 1 by simp
  next
    case 2
    then show ?thesis
      using assms p replaceAll_spaces_prefix replaceAll_spaces_suffix by blast
  qed
qed

lemma collapseSpaces_trimmed:
  "\<forall>p \<in> set unicodeSpaces. \<not> prefix p s \<and> \<not> suffix p s \<Longrightarrow>
   \<forall>p \<in> set unicodeSpaces. \<not> prefix p (collapseSpaces s) \<and> \<not> suffix p (collapseSpaces s)"
proof (induction s rule: collapseSpaces.induct)
  case (1 desc)
  show ?case
  proof (cases "stringsContains desc ''  ''")
    case True
    have "\<forall>p \<in> set unicodeSpaces. \<not> prefix p (replaceAll ''  '' '' '' desc) \<and>
           \<not> suffix p (replaceAll ''  '' '' '' desc)"
      using "1.prems" by (rule replaceAll_spaces_trimmed)
    then show ?thesis using "1.IH" True by (simp add: collapseSpaces.simps [of desc])
  next
    case False
    then show ?thesis using "1.prems" by (simp add: collapseSpaces.simps [of desc])
  qed
qed

lemma replaceAll_single: "replaceAll [a] [b] s = map (\<lambda>c. if c = a then b else c) s"
  by (induction "[a]" "[b]" s rule: replaceAll.induct) auto

lemma cleanDescription_eq:
  "cleanDescription desc = collapseSpaces (TrimSpace (map normalizeByte desc))"
proof -
  have "map (\<lambda>c. if c = CHR 0x60 then CHR 0x27 else c)
          (map (\<lambda>c. if c = CHR 0x22 then CHR 0x27 else c)
             (map (\<lambda>c. if c = CHR 0x0A then CHR '' '' else c) desc)) = map normalizeByte desc"
    by (induction desc) (simp_all add: normalizeByte_def)
  then show ?thesis
    by (simp only: cleanDescription_def replaceAll_single Let_def)
qed

lemma cleanDescription_set:
  "set (cleanDescription desc) \<subseteq> normalizeByte ` set desc \<union> {CHR '' ''}"
proof -
  have "set (TrimSpace (map normalizeByte desc)) \<subseteq> set (map normalizeByte desc)"
    unfolding TrimSpace_def using set_trimRightSpace set_trimLeftSpace by blast
  then show ?thesis
    unfolding cleanDescription_eq using set_collapseSpaces by fastforce
qed

section \<open>Facts about schema dependency collection\<close>

lemmas collect_induct =
  collectSchemaRefs_collectSchemaRefsFromSchema_collectProperties_collectOptional.induct

lemma collect_mono_distinct:
  "collectSchemaRefs fuel name all N = Some N' \<Longrightarrow>
     set N \<subseteq> set N' \<and> (distinct N \<longrightarrow> distinct N')"
  "collectSchemaRefsFromSchema fuel s all N = Some N' \<Longrightarrow>
     set N \<subseteq> set N' \<and> (distinct N \<longrightarrow> distinct N')"
  "collectProperties fuel ps all N = Some N' \<Longrightarrow>
     set N \<subseteq> set N' \<and> (distinct N \<longrightarrow> distinct N')"
  "collectOptional fuel so all N = Some N' \<Longrightarrow>
     set N \<subseteq> set N' \<and> (distinct N \<longrightarrow> distinct N')"
proof (induction fuel name all N and fuel s all N and fuel ps all N and fuel so all N
       arbitrary: N' and N' and N' and N' rule: collect_induct)
  case (1 fuel schemaName allSchemas needed)
  show ?case
  proof (cases "schemaName \<in> set needed")
    case True
    then show ?thesis using "1.prems" by (simp add: collectSchemaRefs.simps)
  next
    case False
    show ?thesis
    proof (cases "allSchemas schemaName")
      case None
      then show ?thesis using False "1.prems" by (simp add: collectSchemaRefs.simps)
    next
      case (Some schema)
      then obtain f' n1 n2 where f: "fuel = Suc f'"
        and s1: "collectProperties f' (Properties schema) allSchemas (schemaName # needed) = Some n1"
        and s2: "collectOptional f' (Items schema) allSchemas n1 = Some n2"
        and s3: "collectOptional f' (AdditionalProperties schema) allSchemas n2 = Some N'"
        using False "1.prems"
        by (auto simp: collectSchemaRefs.simps [of fuel] bind_eq_Some_conv split: nat.splits)
      have a1: "set (schemaName # needed) \<subseteq> set n1 \<and> (distinct (schemaName # needed) \<longrightarrow> distinct n1)"
        using "1.IH"(1) [OF False Some f s1] .
      have a2: "set n1 \<subseteq> set n2 \<and> (distinct n1 \<longrightarrow> distinct n2)"
        using "1.IH"(2) [OF False Some f s1 s2] .
      have a3: "set n2 \<subseteq> set N' \<and> (distinct n2 \<longrightarrow> distinct N')"
        using "1.IH"(3) [OF False Some f s1 s2 s3] .
      show ?thesis using a1 a2 a3 False by auto
    qed
  qed
next
  case (2 fuel i t f d props items ap r df en rq ro an allSchemas needed)
  let ?first = "if r \<noteq> [] then collectSchemaRefs fuel r allSchemas needed else Some needed"
  from "2.prems" obtain n0 n1 n2 where s0: "?first = Some n0"
    and s1: "collectProperties fuel props allSchemas n0 = Some n1"
    and s2: "collectOptional fuel items allSchemas n1 = Some n2"
    and s3: "collectOptional fuel ap allSchemas n2 = Some N'"
    by (auto simp: bind_eq_Some_conv simp del: collectProperties.simps collectOptional.simps)
  have a0: "set needed \<subseteq> set n0 \<and> (distinct needed \<longrightarrow> distinct n0)"
  proof (cases "r \<noteq> []")
    case True
    then show ?thesis using "2.IH"(1) s0 by simp
  next
    case False
    then show ?thesis using s0 by simp
  qed
  have a1: "set n0 \<subseteq> set n1 \<and> (distinct n0 \<longrightarrow> distinct n1)"
    using "2.IH"(2) [OF s0 s1] .
  have a2: "set n1 \<subseteq> set n2 \<and> (distinct n1 \<longrightarrow> distinct n2)"
    using "2.IH"(3) [OF s0 s1 s2] .
  have a3: "set n2 \<subseteq> set N' \<and> (distinct n2 \<longrightarrow> distinct N')"
    using "2.IH"(4) [OF s0 s1 s2 s3] .
  show ?case using a0 a1 a2 a3 by blast
next
  case (3 fuel allSchemas needed)
  then show ?case by simp
next
  case (4 fuel nm pr props allSchemas needed)
  from "4.prems" obtain n1 where s1: "collectSchemaRefsFromSchema fuel pr allSchemas needed = Some n1"
    and s2: "collectProperties fuel props allSchemas n1 = Some N'"
    by (auto simp: bind_eq_Some_conv)
  show ?case using "4.IH"(1) [OF s1] "4.IH"(2) [OF s1 s2] by blast
next
  case (5 fuel allSchemas needed)
  then show ?case by simp
next
  case (6 fuel schema allSchemas needed)
  then show ?case by simp
qed

lemma card_unvisited_mono:
  "finite D \<Longrightarrow> set N \<subseteq> set N' \<Longrightarrow> card (D - set N') \<le> card (D - set N)"
  by (rule card_mono) auto

lemma collect_enough_fuel:
  "finite (dom all) \<Longrightarrow> card (dom all - set N) \<le> fuel \<Longrightarrow>
     \<exists>N'. collectSchemaRefs fuel name all N = Some N'"
  "finite (dom all) \<Longrightarrow> card (dom all - set N) \<le> fuel \<Longrightarrow>
     \<exists>N'. collectSchemaRefsFromSchema fuel s all N = Some N'"
  "finite (dom all) \<Longrightarrow> card (dom all - set N) \<le> fuel \<Longrightarrow>
     \<exists>N'. collectProperties fuel ps all N = Some N'"
  "finite (dom all) \<Longrightarrow> card (dom all - set N) \<le> fuel \<Longrightarrow>
     \<exists>N'. collectOptional fuel so all N = Some N'"
proof (induction fuel name all N and fuel s all N and fuel ps all N and fuel so all N
       rule: collect_induct)
  case (1 fuel schemaName allSchemas needed)
  show ?case
  proof (cases "schemaName \<in> set needed")
    case True
    then show ?thesis by (simp add: collectSchemaRefs.simps)
  next
    case False
    show ?thesis
    proof (cases "allSchemas schemaName")
      case None
      then show ?thesis using False by (simp add: collectSchemaRefs.simps)
    next
      case (Some schema)
      have fin: "finite (dom allSchemas)" by fact
      have "schemaName \<in> dom allSchemas - set needed" using Some False by auto
      then have pos: "0 < card (dom allSchemas - set needed)"
        using fin by (metis card_gt_0_iff empty_iff finite_Diff)
      then obtain f' where f: "fuel = Suc f'"
        using "1.prems"(2) by (cases fuel) auto
      have "dom allSchemas - set (schemaName # needed) = (dom allSchemas - set needed) - {schemaName}"
        by auto
      then have "card (dom allSchemas - set (schemaName # needed)) = card (dom allSchemas - set needed) - 1"
        using \<open>schemaName \<in> dom allSchemas - set needed\<close> fin by simp
      then have c0: "card (dom allSchemas - set (schemaName # needed)) \<le> f'"
        using "1.prems"(2) f by simp
      obtain n1 where s1: "collectProperties f' (Properties schema) allSchemas (schemaName # needed) = Some n1"
        using "1.IH"(1) [OF False Some f fin c0] by blast
      have c1: "card (dom allSchemas - set n1) \<le> f'"
        using card_unvisited_mono [OF fin, of "schemaName # needed" n1]
              collect_mono_distinct(3) [OF s1] c0 by simp
      obtain n2 where s2: "collectOptional f' (Items schema) allSchemas n1 = Some n2"
        using "1.IH"(2) [OF False Some f s1 fin c1] by blast
      have c2: "card (dom allSchemas - set n2) \<le> f'"
        using card_unvisited_mono [OF fin, of n1 n2] collect_mono_distinct(4) [OF s2] c1 by simp
      obtain n3 where s3: "collectOptional f' (AdditionalProperties schema) allSchemas n2 = Some n3"
        using "1.IH"(3) [OF False Some f s1 s2 fin c2] by blast
      show ?thesis using False Some s1 s2 s3 unfolding f
        by (simp add: collectSchemaRefs.simps [of "Suc f'"])
    qed
  qed
next
  case (2 fuel i t f d props items ap r df en rq ro an allSchemas needed)
  have fin: "finite (dom allSchemas)" by fact
  let ?first = "if r \<noteq> [] then collectSchemaRefs fuel r allSchemas needed else Some needed"
  obtain n0 where s0: "?first = Some n0"
    using "2.IH"(1) [OF _ fin "2.prems"(2)] by (cases "r \<noteq> []") auto
  have m0: "set needed \<subseteq> set n0"
    using s0 collect_mono_distinct(1) [of fuel r allSchemas needed n0] by (cases "r \<noteq> []") auto
  have c0: "card (dom allSchemas - set n0) \<le> fuel"
    using card_unvisited_mono [OF fin m0] "2.prems"(2) by simp
  obtain n1 where s1: "collectProperties fuel props allSchemas n0 = Some n1"
    using "2.IH"(2) [OF s0 fin c0] by blast
  have c1: "card (dom allSchemas - set n1) \<le> fuel"
    using card_unvisited_mono [OF fin, of n0 n1] collect_mono_distinct(3) [OF s1] c0 by simp
  obtain n2 where s2: "collectOptional fuel items allSchemas n1 = Some n2"
    using "2.IH"(3) [OF s0 s1 fin c1] by blast
  have c2: "card (dom allSchemas - set n2) \<le> fuel"
    using card_unvisited_mono [OF fin, of n1 n2] collect_mono_distinct(4) [OF s2] c1 by simp
  obtain n3 where s3: "collectOptional fuel ap allSchemas n2 = Some n3"
    using "2.IH"(4) [OF s0 s1 s2 fin c2] by blast
  show ?case using s0 s1 s2 s3 by (simp del: collectProperties.simps collectOptional.simps)
next
  case (3 fuel allSchemas needed)
  then show ?case by simp
next
  case (4 fuel nm pr props allSchemas needed)
  have fin: "finite (dom allSchemas)" by fact
  obtain n1 where s1: "collectSchemaRefsFromSchema fuel pr allSchemas needed = Some n1"
    using "4.IH"(1) [OF fin "4.prems"(2)] by blast
  have c1: "card (dom allSchemas - set n1) \<le> fuel"
    using card_unvisited_mono [OF fin, of needed n1] collect_mono_distinct(2) [OF s1] "4.prems"(2)
    by simp
  obtain n2 where s2: "collectProperties fuel props allSchemas n1 = Some n2"
    using "4.IH"(2) [OF s1 fin c1] by blast
  show ?case using s1 s2 by simp
next
  case (5 fuel allSchemas needed)
  then show ?case by simp
next
  case (6 fuel schema allSchemas needed)
  then show ?case by simp
qed

lemma step_ok_refl: "step_ok all {} N N"
  by (simp add: step_ok_def)

lemma reachableSchemas_Un:
  "reachableSchemas all (R1 \<union> R2) = reachableSchemas all R1 \<union> reachableSchemas all R2"
  by (auto simp: reachableSchemas_def)

lemma step_ok_trans:
  assumes "step_ok all R1 N N1" and "step_ok all R2 N1 N2"
  shows "step_ok all (R1 \<union> R2) N N2"
proof -
  have "set N \<subseteq> set N2" using assms by (auto simp: step_ok_def)
  moreover have "(R1 \<union> R2) \<inter> dom all \<subseteq> set N2" using assms by (auto simp: step_ok_def)
  moreover have "\<forall>x \<in> set N2 - set N. refEdges all `` {x} \<subseteq> set N2"
  proof
    fix x assume x: "x \<in> set N2 - set N"
    show "refEdges all `` {x} \<subseteq> set N2"
    proof (cases "x \<in> set N1")
      case True
      then have "refEdges all `` {x} \<subseteq> set N1" using x assms(1) by (auto simp: step_ok_def)
      then show ?thesis using assms(2) by (auto simp: step_ok_def)
    next
      case False
      then show ?thesis using x assms(2) by (auto simp: step_ok_def)
    qed
  qed
  moreover have "set N2 \<subseteq> set N \<union> reachableSchemas all (R1 \<union> R2)"
    using assms unfolding step_ok_def reachableSchemas_Un by blast
  ultimately show ?thesis by (simp add: step_ok_def)
qed

lemma step_ok_enter:
  assumes new: "name \<notin> set N" and s: "all name = Some schema"
    and ch: "step_ok all (directRefs schema) (name # N) N'"
  shows "step_ok all {name} N N'"
proof -
  have sub: "set (name # N) \<subseteq> set N'" using ch by (simp add: step_ok_def)
  have e: "refEdges all `` {name} = directRefs schema \<inter> dom all"
    using s by (auto simp: refEdges_def)
  have "\<forall>x \<in> set N' - set N. refEdges all `` {x} \<subseteq> set N'"
  proof
    fix x assume x: "x \<in> set N' - set N"
    show "refEdges all `` {x} \<subseteq> set N'"
    proof (cases "x = name")
      case True
      then show ?thesis using e ch by (simp add: step_ok_def)
    next
      case False
      then have "x \<in> set N' - set (name # N)" using x by simp
      then show ?thesis using ch unfolding step_ok_def by blast
    qed
  qed
  moreover have "set N' \<subseteq> set N \<union> reachableSchemas all {name}"
  proof
    fix y assume "y \<in> set N'"
    then consider "y = name" | "y \<in> set N" | "y \<in> reachableSchemas all (directRefs schema)"
      using ch by (auto simp: step_ok_def)
    then show "y \<in> set N \<union> reachableSchemas all {name}"
    proof cases
      case 1
      then show ?thesis using s by (auto simp: reachableSchemas_def)
    next
      case 2
      then show ?thesis by simp
    next
      case 3
      then obtain b where b: "b \<in> directRefs schema" "b \<in> dom all" "(b, y) \<in> (refEdges all)\<^sup>*"
        by (auto simp: reachableSchemas_def)
      then have "(name, b) \<in> refEdges all" using s by (auto simp: refEdges_def)
      then have "(name, y) \<in> (refEdges all)\<^sup>*" using b(3) by (rule converse_rtrancl_into_rtrancl)
      then show ?thesis using s by (auto simp: reachableSchemas_def)
    qed
  qed
  ultimately show ?thesis using sub by (auto simp: step_ok_def)
qed

lemma step_ok_skip:
  "name \<in> set N \<or> all name = None \<Longrightarrow> step_ok all {name} N N"
  by (auto simp: step_ok_def reachableSchemas_def)

lemma schemaRefs_unfold:
  "schemaRefs s = (if Ref s \<noteq> [] then {Ref s} else {}) \<union> directRefs s"
  by (cases s) (simp add: directRefs_def)

lemma collect_step_ok:
  "collectSchemaRefs fuel name all N = Some N' \<Longrightarrow> step_ok all {name} N N'"
  "collectSchemaRefsFromSchema fuel s all N = Some N' \<Longrightarrow> step_ok all (schemaRefs s) N N'"
  "collectProperties fuel ps all N = Some N' \<Longrightarrow>
     step_ok all (\<Union>(n, p) \<in> set ps. schemaRefs p) N N'"
  "collectOptional fuel so all N = Some N' \<Longrightarrow>
     step_ok all (case so of None \<Rightarrow> {} | Some x \<Rightarrow> schemaRefs x) N N'"
proof (induction fuel name all N and fuel s all N and fuel ps all N and fuel so all N
       arbitrary: N' and N' and N' and N' rule: collect_induct)
  case (1 fuel schemaName allSchemas needed)
  show ?case
  proof (cases "schemaName \<in> set needed \<or> allSchemas schemaName = None")
    case True
    then have "N' = needed" using "1.prems"
      by (auto simp: collectSchemaRefs.simps split: if_splits)
    then show ?thesis using True by (simp add: step_ok_skip)
  next
    case False
    then obtain schema where new: "schemaName \<notin> set needed"
      and Some: "allSchemas schemaName = Some schema" by auto
    then obtain f' n1 n2 where f: "fuel = Suc f'"
      and s1: "collectProperties f' (Properties schema) allSchemas (schemaName # needed) = Some n1"
      and s2: "collectOptional f' (Items schema) allSchemas n1 = Some n2"
      and s3: "collectOptional f' (AdditionalProperties schema) allSchemas n2 = Some N'"
      using "1.prems"
      by (auto simp: collectSchemaRefs.simps [of fuel] bind_eq_Some_conv split: nat.splits)
    have "step_ok allSchemas
            ((\<Union>(n, p) \<in> set (Properties schema). schemaRefs p) \<union>
             (case Items schema of None \<Rightarrow> {} | Some x \<Rightarrow> schemaRefs x) \<union>
             (case AdditionalProperties schema of None \<Rightarrow> {} | Some x \<Rightarrow> schemaRefs x))
            (schemaName # needed) N'"
      using step_ok_trans [OF step_ok_trans [OF "1.IH"(1) [OF new Some f s1]
              "1.IH"(2) [OF new Some f s1 s2]] "1.IH"(3) [OF new Some f s1 s2 s3]] .
    then have "step_ok allSchemas (directRefs schema) (schemaName # needed) N'"
      by (simp add: directRefs_def)
    then show ?thesis using new Some by (rule step_ok_enter [rotated 2])
  qed
next
  case (2 fuel i t f d props items ap r df en rq ro an allSchemas needed)
  let ?first = "if r \<noteq> [] then collectSchemaRefs fuel r allSchemas needed else Some needed"
  from "2.prems" obtain n0 n1 n2 where s0: "?first = Some n0"
    and s1: "collectProperties fuel props allSchemas n0 = Some n1"
    and s2: "collectOptional fuel items allSchemas n1 = Some n2"
    and s3: "collectOptional fuel ap allSchemas n2 = Some N'"
    by (auto simp: bind_eq_Some_conv simp del: collectProperties.simps collectOptional.simps)
  have a0: "step_ok allSchemas (if r \<noteq> [] then {r} else {}) needed n0"
  proof (cases "r \<noteq> []")
    case True
    then show ?thesis using "2.IH"(1) s0 by simp
  next
    case False
    then show ?thesis using s0 by (simp add: step_ok_refl)
  qed
  have "step_ok allSchemas
          ((if r \<noteq> [] then {r} else {}) \<union> (\<Union>(n, p) \<in> set props. schemaRefs p) \<union>
           (case items of None \<Rightarrow> {} | Some x \<Rightarrow> schemaRefs x) \<union>
           (case ap of None \<Rightarrow> {} | Some x \<Rightarrow> schemaRefs x))
          needed N'"
    using step_ok_trans [OF step_ok_trans [OF step_ok_trans [OF a0 "2.IH"(2) [OF s0 s1]]
            "2.IH"(3) [OF s0 s1 s2]] "2.IH"(4) [OF s0 s1 s2 s3]] .
  then show ?case by simp
next
  case (3 fuel allSchemas needed)
  then show ?case by (simp add: step_ok_refl)
next
  case (4 fuel nm pr props allSchemas needed)
  from "4.prems" obtain n1 where s1: "collectSchemaRefsFromSchema fuel pr allSchemas needed = Some n1"
    and s2: "collectProperties fuel props allSchemas n1 = Some N'"
    by (auto simp: bind_eq_Some_conv)
  show ?case using step_ok_trans [OF "4.IH"(1) [OF s1] "4.IH"(2) [OF s1 s2]] by simp
next
  case (5 fuel allSchemas needed)
  then show ?case by (simp add: step_ok_refl)
next
  case (6 fuel schema allSchemas needed)
  then show ?case by simp
qed

lemma methodRefs_Nil: "methodRefs [] = {}"
  by (simp add: methodRefs_def)

lemma methodRefs_Cons:
  "methodRefs (m # ms) =
     (case Request (miMethod m) of Some r \<Rightarrow> if r \<noteq> [] then {r} else {} | None \<Rightarrow> {}) \<union>
     (case Response (miMethod m) of Some r \<Rightarrow> if r \<noteq> [] then {r} else {} | None \<Rightarrow> {}) \<union>
     methodRefs ms"
  by (auto simp: methodRefs_def split: option.splits)

lemma root_step:
  assumes "(case ro of Some r \<Rightarrow> if r \<noteq> [] then collectSchemaRefs fuel r all N else Some N
            | None \<Rightarrow> Some N) = Some N'"
  shows "step_ok all (case ro of Some r \<Rightarrow> if r \<noteq> [] then {r} else {} | None \<Rightarrow> {}) N N'"
    and "distinct N \<longrightarrow> distinct N'"
  using assms collect_step_ok(1) [of fuel _ all N N'] collect_mono_distinct(1) [of fuel _ all N N']
  by (auto simp: step_ok_refl split: option.splits if_splits)

lemma root_enough_fuel:
  assumes "finite (dom all)" and "card (dom all - set N) \<le> fuel"
  shows "\<exists>N'. (case ro of Some r \<Rightarrow> if r \<noteq> [] then collectSchemaRefs fuel r all N else Some N
            | None \<Rightarrow> Some N) = Some N'"
  using collect_enough_fuel(1) [OF assms] by (auto split: option.splits)

lemma collectMethodRefs_step_ok:
  "collectMethodRefs fuel ms all N = Some N' \<Longrightarrow>
     step_ok all (methodRefs ms) N N' \<and> (distinct N \<longrightarrow> distinct N')"
proof (induction ms arbitrary: N)
  case Nil
  then show ?case by (simp add: methodRefs_Nil step_ok_refl)
next
  case (Cons m ms)
  let ?rq = "case Request (miMethod m) of
          Some r \<Rightarrow> if r \<noteq> [] then collectSchemaRefs fuel r all N else Some N
        | None \<Rightarrow> Some N"
  from Cons.prems obtain n1 where s1: "?rq = Some n1"
    by (auto simp: bind_eq_Some_conv)
  let ?rs = "case Response (miMethod m) of
             Some r \<Rightarrow> if r \<noteq> [] then collectSchemaRefs fuel r all n1 else Some n1
           | None \<Rightarrow> Some n1"
  from Cons.prems s1 obtain n2 where s2: "?rs = Some n2"
    and s3: "collectMethodRefs fuel ms all n2 = Some N'"
    by (auto simp: bind_eq_Some_conv)
  have "step_ok all
          ((case Request (miMethod m) of Some r \<Rightarrow> if r \<noteq> [] then {r} else {} | None \<Rightarrow> {}) \<union>
           (case Response (miMethod m) of Some r \<Rightarrow> if r \<noteq> [] then {r} else {} | None \<Rightarrow> {}) \<union>
           methodRefs ms) N N'"
    using step_ok_trans [OF step_ok_trans [OF root_step(1) [OF s1] root_step(1) [OF s2]]]
          Cons.IH [OF s3] by blast
  moreover have "distinct N \<longrightarrow> distinct N'"
    using root_step(2) [OF s1] root_step(2) [OF s2] Cons.IH [OF s3] by blast
  ultimately show ?case by (simp add: methodRefs_Cons)
qed

lemma collectMethodRefs_enough_fuel:
  "finite (dom all) \<Longrightarrow> card (dom all - set N) \<le> fuel \<Longrightarrow>
     \<exists>N'. collectMethodRefs fuel ms all N = Some N'"
proof (induction ms arbitrary: N)
  case Nil
  then show ?case by simp
next
  case (Cons m ms)
  have fin: "finite (dom all)" by fact
  let ?rq = "case Request (miMethod m) of
          Some r \<Rightarrow> if r \<noteq> [] then collectSchemaRefs fuel r all N else Some N
        | None \<Rightarrow> Some N"
  obtain n1 where s1: "?rq = Some n1"
    using root_enough_fuel [OF fin Cons.prems(2)] by blast
  have "set N \<subseteq> set n1" using root_step(1) [OF s1] by (simp add: step_ok_def)
  then have c1: "card (dom all - set n1) \<le> fuel"
    using card_unvisited_mono [OF fin, of N n1] Cons.prems(2) by simp
  let ?rs = "case Response (miMethod m) of
             Some r \<Rightarrow> if r \<noteq> [] then collectSchemaRefs fuel r all n1 else Some n1
           | None \<Rightarrow> Some n1"
  obtain n2 where s2: "?rs = Some n2"
    using root_enough_fuel [OF fin c1] by blast
  have "set n1 \<subseteq> set n2" using root_step(1) [OF s2] by (simp add: step_ok_def)
  then have c2: "card (dom all - set n2) \<le> fuel"
    using card_unvisited_mono [OF fin, of n1 n2] c1 by simp
  obtain n3 where s3: "collectMethodRefs fuel ms all n2 = Some n3"
    using Cons.IH [OF fin c2] by blast
  show ?case using s1 s2 s3 by simp
qed

lemma refEdges_dom: "(a, b) \<in> (refEdges all)\<^sup>* \<Longrightarrow> a \<in> dom all \<Longrightarrow> b \<in> dom all"
  by (induction rule: rtrancl_induct) (auto simp: refEdges_def)

lemma reachableSchemas_dom: "reachableSchemas all R \<subseteq> dom all"
  unfolding reachableSchemas_def using refEdges_dom by blast

lemma step_ok_from_empty:
  assumes "step_ok all R [] N'"
  shows "set N' = reachableSchemas all R"
proof
  show "set N' \<subseteq> reachableSchemas all R" using assms by (simp add: step_ok_def)
  have closed: "\<And>x y. x \<in> set N' \<Longrightarrow> (x, y) \<in> refEdges all \<Longrightarrow> y \<in> set N'"
    using assms by (auto simp: step_ok_def)
  have "(a, b) \<in> (refEdges all)\<^sup>* \<Longrightarrow> a \<in> set N' \<Longrightarrow> b \<in> set N'" for a b
    by (induction rule: rtrancl_induct) (auto intro: closed)
  moreover have "R \<inter> dom all \<subseteq> set N'" using assms by (simp add: step_ok_def)
  ultimately show "reachableSchemas all R \<subseteq> set N'"
    by (auto simp: reachableSchemas_def)
qed

lemma concat_lookup_names:
  "set names \<subseteq> dom all \<Longrightarrow>
   concat (map (\<lambda>name. case all name of Some schema \<Rightarrow> [NewSchemaInfo name schema all]
                                        | None \<Rightarrow> []) names)
   = map (\<lambda>name. NewSchemaInfo name (the (all name)) all) names"
  by (induction names) auto

lemma collectSchemas_result:
  assumes "collectSchemas fuel methods all = Some result"
  shows "\<exists>needed. collectMethodRefs fuel methods all [] = Some needed \<and>
           distinct needed \<and> set needed = reachableSchemas all (methodRefs methods) \<and>
           result = map (\<lambda>name. NewSchemaInfo name (the (all name)) all) (sort needed) \<and>
           map siName result = sort needed"
proof -
  from assms obtain needed where n: "collectMethodRefs fuel methods all [] = Some needed"
    and r: "result = concat (map (\<lambda>name. case all name of
                                       Some schema \<Rightarrow> [NewSchemaInfo name schema all]
                                     | None \<Rightarrow> []) (sort needed))"
    by (auto simp: collectSchemas_def bind_eq_Some_conv)
  have ok: "step_ok all (methodRefs methods) [] needed" and d: "distinct needed"
    using collectMethodRefs_step_ok [OF n] by simp_all
  have s: "set needed = reachableSchemas all (methodRefs methods)"
    using ok by (rule step_ok_from_empty)
  then have "set (sort needed) \<subseteq> dom all" using reachableSchemas_dom by simp
  then have r': "result = map (\<lambda>name. NewSchemaInfo name (the (all name)) all) (sort needed)"
    unfolding r by (rule concat_lookup_names)
  then have "map siName result = sort needed"
    by (simp add: NewSchemaInfo_def comp_def)
  then show ?thesis using n d s r' by blast
qed

lemma collectSchemas_enough_fuel:
  assumes "finite (dom all)" and "card (dom all) \<le> fuel"
  shows "\<exists>result. collectSchemas fuel methods all = Some result"
proof -
  have "card (dom all - set []) \<le> fuel" using assms(2) by simp
  then obtain needed where "collectMethodRefs fuel methods all [] = Some needed"
    using collectMethodRefs_enough_fuel [OF assms(1)] by blast
  then show ?thesis by (simp add: collectSchemas_def)
qed

text \<open>A named schema that is itself only a reference is collected, its target is not: the
  traversal of a named schema starts at its properties, items and additional properties.\<close>

lemma top_level_reference_not_followed:
  "collectSchemaRefs 2 ''Alias''
     [''Alias'' \<mapsto> refSchema ''Target'', ''Target'' \<mapsto> scalarSchema ''string'' []] []
   = Some [''Alias'']"
  by (simp add: collectSchemaRefs.simps refSchema_def)

section \<open>Facts about method selection\<close>

lemma selectMethods_missing:
  "\<exists>name \<in> set names. name \<notin> fst ` set allMethods \<Longrightarrow>
   \<exists>name \<in> set names. name \<notin> fst ` set allMethods \<and>
      (\<forall>opts acc. selectMethods allMethods opts names acc = Inl (MethodNotFound name))"
proof (induction names)
  case Nil
  then show ?case by simp
next
  case (Cons n names)
  show ?case
  proof (cases "map_of allMethods n")
    case None
    then have "n \<notin> fst ` set allMethods" by (simp add: map_of_eq_None_iff)
    then show ?thesis using None by simp
  next
    case (Some m)
    then have "n \<in> fst ` set allMethods" by (metis map_of_eq_None_iff option.distinct(1))
    then have "\<exists>name \<in> set names. name \<notin> fst ` set allMethods" using Cons.prems by auto
    then obtain name where "name \<in> set names" "name \<notin> fst ` set allMethods"
      "\<forall>opts acc. selectMethods allMethods opts names acc = Inl (MethodNotFound name)"
      using Cons.IH by blast
    then show ?thesis using Some by (intro bexI [of _ name]) simp_all
  qed
qed

lemma selectMethods_present:
  "\<forall>name \<in> set names. name \<in> fst ` set allMethods \<Longrightarrow>
   \<exists>ms. selectMethods allMethods opts names acc = Inr (acc @ ms) \<and> map FullName ms = names"
proof (induction names arbitrary: acc)
  case Nil
  then show ?case by simp
next
  case (Cons n names)
  then obtain m where m: "map_of allMethods n = Some m"
    by (metis list.set_intros(1) map_of_eq_None_iff not_Some_eq)
  obtain ms where "selectMethods allMethods opts names
      (acc @ [\<lparr>FullName = n, miMethod = m, Prefix = oPrefix opts, StructPrefix = oStructPrefix opts\<rparr>])
      = Inr ((acc @ [\<lparr>FullName = n, miMethod = m, Prefix = oPrefix opts, StructPrefix = oStructPrefix opts\<rparr>]) @ ms)"
    "map FullName ms = names"
    using Cons.IH Cons.prems by (meson list.set_intros(2))
  then show ?case using m
    by (intro exI [of _ "\<lparr>FullName = n, miMethod = m, Prefix = oPrefix opts, StructPrefix = oStructPrefix opts\<rparr> # ms"]) simp
qed

section \<open>Facts about the sorted orders\<close>

lemma insertBy_insort_key:
  fixes k :: "'a \<Rightarrow> 'k::linorder"
  shows "(\<And>a b. lt a b \<longleftrightarrow> k a < k b) \<Longrightarrow> insertBy lt x ys = insort_key k x ys"
  by (induction ys) (auto simp: not_less)

lemma sortSlice_sort_key:
  fixes k :: "'a \<Rightarrow> 'k::linorder"
  assumes "\<And>a b. lt a b \<longleftrightarrow> k a < k b"
  shows "sortSlice lt xs = sort_key k xs"
  by (induction xs) (simp_all add: sortSlice_def insertBy_insort_key [of lt k, OF assms])

lemma sortSlice_unique:
  fixes k :: "'a \<Rightarrow> 'k::linorder"
  assumes key: "\<And>a b. lt a b \<longleftrightarrow> k a < k b" and inj: "inj_on k (set xs)"
    and perm: "mset ys = mset xs" and sorted: "sorted_wrt (\<lambda>a b. \<not> lt b a) ys"
  shows "ys = sortSlice lt xs"
proof -
  have "(\<lambda>a b. \<not> lt b a) = (\<lambda>a b. k a \<le> k b)"
    by (intro ext) (simp add: key not_less)
  then have "sorted (map k ys)" using sorted by (simp add: sorted_wrt_map)
  then have "sort_key k xs = ys"
    using perm inj by (intro sort_key_inj_key_eq) simp_all
  then show ?thesis using sortSlice_sort_key [of lt k xs] key by simp
qed

lemma indexOfFrom_range:
  "0 \<le> i \<Longrightarrow>
   indexOfFrom i vs s = - 1 \<and> s \<notin> set vs \<or>
   i \<le> indexOfFrom i vs s \<and> indexOfFrom i vs s < i + int (length vs) \<and> s \<in> set vs"
  by (induction i vs s rule: indexOfFrom.induct) auto

lemma indexOf_range:
  "indexOf vs s = - 1 \<and> s \<notin> set vs \<or>
   0 \<le> indexOf vs s \<and> indexOf vs s < int (length vs) \<and> s \<in> set vs"
  using indexOfFrom_range [of 0 vs s] by (simp add: indexOf_def)

lemma paramLess_key: "paramLess m a b \<longleftrightarrow> paramKey m a < paramKey m b"
  using indexOf_range [of "ParameterOrder (miMethod m)" "paName a"]
        indexOf_range [of "ParameterOrder (miMethod m)" "paName b"]
  by (auto simp: paramLess_def paramKey_def Let_def less_prod_def less_eq_prod_def)

lemma propertyLess_key: "propertyLess a b \<longleftrightarrow> propertyKey a < propertyKey b"
  by (auto simp: propertyLess_def propertyKey_def less_prod_def less_eq_prod_def)

lemma SortedParams_sort_key: "SortedParams m = sort_key (paramKey m) (paramEntries m)"
  unfolding SortedParams_def paramEntries_def
  by (rule sortSlice_sort_key) (rule paramLess_key)

lemma SortedProperties_sort_key: "SortedProperties s = sort_key propertyKey (propertyEntries s)"
  unfolding SortedProperties_def propertyEntries_def
  by (rule sortSlice_sort_key) (rule propertyLess_key)

lemma paramEntries_names: "map paName (paramEntries m) = map fst (Parameters (miMethod m))"
  by (simp add: paramEntries_def comp_def case_prod_beta)

lemma propertyEntries_names: "map piName (propertyEntries s) = map fst (Properties (siSchema s))"
  by (simp add: propertyEntries_def comp_def case_prod_beta)

lemma inj_on_key_of_names:
  assumes "distinct (map nm xs)" and "\<And>x. nm x = sel (k x)"
  shows "inj_on k (set xs)"
proof (rule inj_onI)
  fix x y assume "x \<in> set xs" "y \<in> set xs" "k x = k y"
  then have "nm x = nm y" using assms(2) by simp
  then show "x = y" using assms(1) \<open>x \<in> set xs\<close> \<open>y \<in> set xs\<close>
    by (meson distinct_map inj_onD)
qed

lemma paramKey_inj:
  "distinct (map fst (Parameters (miMethod m))) \<Longrightarrow> inj_on (paramKey m) (set (paramEntries m))"
  by (rule inj_on_key_of_names [where nm = paName and sel = "\<lambda>k. snd (snd k)"])
     (simp_all add: paramEntries_names paramKey_def)

lemma propertyKey_inj:
  "distinct (map fst (Properties (siSchema s))) \<Longrightarrow> inj_on propertyKey (set (propertyEntries s))"
  by (rule inj_on_key_of_names [where nm = piName and sel = snd])
     (simp_all add: propertyEntries_names propertyKey_def)

lemma sort_key_strict:
  fixes k :: "'a \<Rightarrow> 'k::linorder"
  assumes "inj_on k (set xs)" and "distinct xs"
  shows "sorted_wrt (\<lambda>a b. k a < k b) (sort_key k xs)"
proof -
  have "distinct (map k (sort_key k xs))"
    using assms by (simp add: distinct_map)
  moreover have "sorted (map k (sort_key k xs))" by simp
  ultimately have "sorted_wrt (<) (map k (sort_key k xs))"
    using strict_sorted_iff by blast
  then show ?thesis by (simp add: sorted_wrt_map)
qed

lemma sort_key_permutation:
  fixes k :: "'a \<Rightarrow> 'k::linorder"
  assumes "mset xs = mset ys" and "inj_on k (set xs)"
  shows "sort_key k xs = sort_key k ys"
  by (rule sort_key_inj_key_eq) (simp_all add: assms)

lemma distinct_paramEntries:
  assumes "distinct (map fst (Parameters (miMethod m)))"
  shows "distinct (paramEntries m)"
proof -
  have "distinct (map paName (paramEntries m))" using assms by (simp add: paramEntries_names)
  then show ?thesis by (simp add: distinct_map)
qed

lemma distinct_propertyEntries:
  assumes "distinct (map fst (Properties (siSchema s)))"
  shows "distinct (propertyEntries s)"
proof -
  have "distinct (map piName (propertyEntries s))" using assms by (simp add: propertyEntries_names)
  then show ?thesis by (simp add: distinct_map)
qed

lemma SortedParams_sorted:
  assumes "distinct (map fst (Parameters (miMethod m)))"
  shows "sorted_wrt (paramLess m) (SortedParams m)"
proof -
  have "paramLess m = (\<lambda>a b. paramKey m a < paramKey m b)"
    by (intro ext) (rule paramLess_key)
  then show ?thesis
    using sort_key_strict [OF paramKey_inj [OF assms] distinct_paramEntries [OF assms]]
    by (simp add: SortedParams_sort_key)
qed

lemma SortedProperties_sorted:
  assumes "distinct (map fst (Properties (siSchema s)))"
  shows "sorted_wrt propertyLess (SortedProperties s)"
proof -
  have "propertyLess = (\<lambda>a b. propertyKey a < propertyKey b)"
    by (intro ext) (rule propertyLess_key)
  then show ?thesis
    using sort_key_strict [OF propertyKey_inj [OF assms] distinct_propertyEntries [OF assms]]
    by (simp add: SortedProperties_sort_key)
qed


lemma SortedProperties_permutation:
  assumes "mset (Properties (siSchema s)) = mset (Properties (siSchema s'))"
    and "distinct (map fst (Properties (siSchema s)))"
    and "RequiredSet s = RequiredSet s'" and "siAllSchemas s = siAllSchemas s'"
  shows "SortedProperties s = SortedProperties s'"
proof -
  have "mset (propertyEntries s) = mset (propertyEntries s')"
    unfolding propertyEntries_def assms(3) assms(4) using assms(1) by simp
  then show ?thesis
    using sort_key_permutation [OF _ propertyKey_inj [OF assms(2)], of "propertyEntries s'"]
    by (simp add: SortedProperties_sort_key)
qed

lemma paramLess_order:
  assumes "paramLess m a b"
  shows "(pRequired (paParam b) \<longrightarrow> pRequired (paParam a)) \<and>
         (pRequired (paParam a) = pRequired (paParam b) \<longrightarrow>
            (paName a \<in> set (ParameterOrder (miMethod m)) \<or>
             paName b \<notin> set (ParameterOrder (miMethod m))) \<and>
            (paName a \<in> set (ParameterOrder (miMethod m)) \<and>
             paName b \<in> set (ParameterOrder (miMethod m)) \<longrightarrow>
               indexOf (ParameterOrder (miMethod m)) (paName a)
                 \<le> indexOf (ParameterOrder (miMethod m)) (paName b)) \<and>
            (indexOf (ParameterOrder (miMethod m)) (paName a)
               = indexOf (ParameterOrder (miMethod m)) (paName b) \<longrightarrow>
               paName a < paName b))"
  using assms indexOf_range [of "ParameterOrder (miMethod m)" "paName a"]
        indexOf_range [of "ParameterOrder (miMethod m)" "paName b"]
  unfolding paramLess_def Let_def
  by (auto split: if_splits)

lemma propertyLess_order:
  assumes "propertyLess a b"
  shows "(piRequired b \<longrightarrow> piRequired a) \<and> (piRequired a = piRequired b \<longrightarrow> piName a < piName b)"
  using assms unfolding propertyLess_def by (auto split: if_splits)

lemma SortedParams_mset:
  "mset (map (\<lambda>p. (paName p, paParam p)) (SortedParams m)) = mset (Parameters (miMethod m))"
proof -
  have "map (\<lambda>p. (paName p, paParam p)) (paramEntries m) = Parameters (miMethod m)"
    by (simp add: paramEntries_def comp_def case_prod_beta)
  then show ?thesis
    unfolding SortedParams_sort_key by (metis mset_map mset_sort)
qed

lemma SortedProperties_mset:
  "mset (map (\<lambda>p. (piName p, piProperty p)) (SortedProperties s)) = mset (Properties (siSchema s))"
proof -
  have "map (\<lambda>p. (piName p, piProperty p)) (propertyEntries s) = Properties (siSchema s)"
    by (simp add: propertyEntries_def comp_def case_prod_beta)
  then show ?thesis
    unfolding SortedProperties_sort_key by (metis mset_map mset_sort)
qed

lemma example_order:
  assumes "mset ps = mset exampleProperties"
  shows "map piName (SortedProperties (NewSchemaInfo ''TestSchema'' (exampleSchema ps) allSchemas))
         = [''required'', ''alpha'', ''beta'', ''zebra'']"
proof -
  have "mset (map fst ps) = mset (map fst exampleProperties)"
    using assms by (metis mset_map)
  moreover have "distinct (map fst exampleProperties)"
    by (simp add: exampleProperties_def)
  ultimately have d: "distinct (map fst ps)"
    using mset_eq_imp_distinct_iff by blast
  have sel: "Properties (siSchema (NewSchemaInfo ''TestSchema'' (exampleSchema qs) allSchemas)) = qs"
    "RequiredSet (NewSchemaInfo ''TestSchema'' (exampleSchema qs) allSchemas) = {''required''}"
    "siAllSchemas (NewSchemaInfo ''TestSchema'' (exampleSchema qs) allSchemas) = allSchemas" for qs
    by (simp_all add: NewSchemaInfo_def exampleSchema_def)
  have "SortedProperties (NewSchemaInfo ''TestSchema'' (exampleSchema ps) allSchemas)
        = SortedProperties (NewSchemaInfo ''TestSchema'' (exampleSchema exampleProperties) allSchemas)"
    by (rule SortedProperties_permutation) (simp_all only: sel assms d)
  moreover have "map piName
       (SortedProperties (NewSchemaInfo ''TestSchema'' (exampleSchema exampleProperties) allSchemas))
     = [''required'', ''alpha'', ''beta'', ''zebra'']"
    by (simp add: SortedProperties_def NewSchemaInfo_def exampleSchema_def exampleProperties_def
          sortSlice_def propertyLess_def scalarSchema_def)
  ultimately show ?thesis by simp
qed

section \<open>Facts about enumeration order\<close>


































section \<open>Claims about type resolution\<close>






section \<open>Claims about descriptions\<close>

text \<open>
  Claim C9, as amended. The cleaned description is the input with every newline turned into
  a space and every double quote and backtick turned into an apostrophe, then trimmed of
  leading and trailing white space, then with runs of the space character U+0020 collapsed.
  It contains no newline, double quote or backtick and no two adjacent spaces, and no
  white-space sequence starts or ends it. The collapsing loop stops after at most as many
  passes as its input has bytes. A tool description is at most 200 bytes long: it is the
  first 197 bytes of the cleaned description followed by \<open>...\<close> when the cleaned
  description is longer than 200 bytes, and the cleaned description itself otherwise.
\<close>

theorem descriptions_are_sanitized:
  "cleanDescription desc = collapseSpaces (TrimSpace (map normalizeByte desc)) \<and>
   CHR 0x0A \<notin> set (cleanDescription desc) \<and>
   CHR 0x22 \<notin> set (cleanDescription desc) \<and>
   CHR 0x60 \<notin> set (cleanDescription desc) \<and>
   \<not> stringsContains (cleanDescription desc) ''  '' \<and>
   (\<forall>p \<in> set unicodeSpaces.
      \<not> prefix p (cleanDescription desc) \<and> \<not> suffix p (cleanDescription desc)) \<and>
   (\<exists>n \<le> length d. collapseSpaces d = ((replaceAll ''  '' '' '') ^^ n) d) \<and>
   length (Description m) \<le> 200 \<and>
   (length (cleanDescription (mDescription (miMethod m))) > 200 \<longrightarrow>
      Description m = take 197 (cleanDescription (mDescription (miMethod m))) @ ''...'') \<and>
   (length (cleanDescription (mDescription (miMethod m))) \<le> 200 \<longrightarrow>
      Description m = cleanDescription (mDescription (miMethod m)))"
proof -
  have n: "normalizeByte c \<noteq> CHR 0x0A" "normalizeByte c \<noteq> CHR 0x22"
    "normalizeByte c \<noteq> CHR 0x60" for c
    by (simp_all add: normalizeByte_def)
  have a: "CHR 0x0A \<notin> set (cleanDescription desc)"
    using cleanDescription_set [of desc] n(1) by force
  have b: "CHR 0x22 \<notin> set (cleanDescription desc)"
    using cleanDescription_set [of desc] n(2) by force
  have c: "CHR 0x60 \<notin> set (cleanDescription desc)"
    using cleanDescription_set [of desc] n(3) by force
  have d: "\<not> stringsContains (cleanDescription desc) ''  ''"
    unfolding cleanDescription_eq by (rule collapseSpaces_no_double)
  have e: "\<forall>p \<in> set unicodeSpaces.
      \<not> prefix p (cleanDescription desc) \<and> \<not> suffix p (cleanDescription desc)"
    unfolding cleanDescription_eq
    by (rule collapseSpaces_trimmed) (simp add: TrimSpace_trimmed)
  have f: "length (Description m) \<le> 200"
    by (simp add: Description_def Let_def)
  have g: "length (cleanDescription (mDescription (miMethod m))) > 200 \<longrightarrow>
      Description m = take 197 (cleanDescription (mDescription (miMethod m))) @ ''...''"
    by (simp add: Description_def Let_def)
  have h: "length (cleanDescription (mDescription (miMethod m))) \<le> 200 \<longrightarrow>
      Description m = cleanDescription (mDescription (miMethod m))"
    by (simp add: Description_def Let_def)
  show ?thesis
    using cleanDescription_eq [of desc] a b c d e collapseSpaces_funpow [of d] f g h
    by blast
qed

theorem descriptions_are_sanitized_witness:
  "cleanDescription ([CHR 0x0A] @ ''  List   the '' @ [CHR 0x22] @ ''videos'' @ [CHR 0x60, CHR 0x0A] @ '' '')
     = ''List the '' @ [CHR 0x27] @ ''videos'' @ [CHR 0x27] \<and>
   [CHR 0xC2, CHR 0xA0] \<in> set unicodeSpaces \<and>
   \<not> prefix [CHR 0xC2, CHR 0xA0]
       (cleanDescription ([CHR 0xC2, CHR 0xA0, CHR 0xC2, CHR 0xA0] @ ''ab'')) \<and>
   length (cleanDescription (mDescription (miMethod (methodWithDescription (replicate 250 (CHR ''a'')))))) > 200 \<and>
   Description (methodWithDescription (replicate 250 (CHR ''a''))) = replicate 197 (CHR ''a'') @ ''...'' \<and>
   length (cleanDescription (mDescription (miMethod (methodWithDescription ''List videos'')))) \<le> 200 \<and>
   Description (methodWithDescription ''List videos'') = ''List videos''"
proof -
  have e1: "cleanDescription ([CHR 0x0A] @ ''  List   the '' @ [CHR 0x22] @ ''videos'' @ [CHR 0x60, CHR 0x0A] @ '' '')
     = ''List the '' @ [CHR 0x27] @ ''videos'' @ [CHR 0x27]"
    by code_simp
  have e2: "cleanDescription (replicate 250 (CHR ''a'')) = replicate 250 (CHR ''a'')"
    by code_simp
  have e3: "cleanDescription ''List videos'' = ''List videos''"
    by code_simp
  have e4: "[CHR 0xC2, CHR 0xA0] \<in> set unicodeSpaces"
    by (simp add: unicodeSpaces_def)
  show ?thesis
    using descriptions_are_sanitized
            [of "[CHR 0xC2, CHR 0xA0, CHR 0xC2, CHR 0xA0] @ ''ab''" _
                "methodWithDescription (replicate 250 (CHR ''a''))"]
          descriptions_are_sanitized
            [of _ _ "methodWithDescription ''List videos''"]
          e1 e2 e3 e4
    by (simp add: methodWithDescription_def)
qed

text \<open>
  Claim C9 as stated fails for white space other than the space character: two adjacent
  tabs stay two adjacent tabs, and a carriage return followed by a newline becomes a
  carriage return followed by a space.
\<close>

theorem tabs_not_collapsed_counterexample:
  "cleanDescription [CHR ''a'', CHR 0x09, CHR 0x09, CHR ''b'']
     = [CHR ''a'', CHR 0x09, CHR 0x09, CHR ''b''] \<and>
   cleanDescription [CHR ''a'', CHR 0x0D, CHR 0x0A, CHR ''b'']
     = [CHR ''a'', CHR 0x0D, CHR '' '', CHR ''b''] \<and>
   asciiSpace (CHR 0x09) \<and> asciiSpace (CHR 0x0D) \<and> asciiSpace (CHR '' '')"
proof -
  have "cleanDescription [CHR ''a'', CHR 0x09, CHR 0x09, CHR ''b'']
     = [CHR ''a'', CHR 0x09, CHR 0x09, CHR ''b'']"
    by code_simp
  moreover have "cleanDescription [CHR ''a'', CHR 0x0D, CHR 0x0A, CHR ''b'']
     = [CHR ''a'', CHR 0x0D, CHR '' '', CHR ''b'']"
    by code_simp
  ultimately show ?thesis by (simp add: asciiSpace_def)
qed

section \<open>Claims about schema dependency collection\<close>

text \<open>
  Claim C2. For a finite schema table, cyclic or not, fuel equal to the number of schemas
  is enough for dependency collection to return: \<open>collectSchemas\<close> yields a list in which
  every schema name occurs once, and \<open>collectSchemaRefs\<close>, started from any duplicate-free
  \<open>needed\<close>, returns a duplicate-free extension of it. A name that is already in \<open>needed\<close>
  is returned from at once, without recursion (no fuel is needed) and without change.
\<close>

theorem collection_terminates:
  assumes "finite (dom allSchemas)" and "card (dom allSchemas) \<le> fuel"
  shows "(\<exists>result. collectSchemas fuel methods allSchemas = Some result \<and>
            distinct (map siName result)) \<and>
         (\<forall>name needed. distinct needed \<longrightarrow>
            (\<exists>needed'. collectSchemaRefs fuel name allSchemas needed = Some needed' \<and>
               distinct needed' \<and> set needed \<subseteq> set needed')) \<and>
         (\<forall>name needed. name \<in> set needed \<longrightarrow>
            collectSchemaRefs 0 name allSchemas needed = Some needed)"
proof -
  obtain result where r: "collectSchemas fuel methods allSchemas = Some result"
    using collectSchemas_enough_fuel [OF assms] by blast
  then obtain needed where "distinct needed" "map siName result = sort needed"
    using collectSchemas_result [OF r] by blast
  then have "distinct (map siName result)" by simp
  then have a: "\<exists>result. collectSchemas fuel methods allSchemas = Some result \<and>
            distinct (map siName result)" using r by blast
  have b: "\<exists>needed'. collectSchemaRefs fuel name allSchemas needed = Some needed' \<and>
               distinct needed' \<and> set needed \<subseteq> set needed'" if d: "distinct needed" for name needed
  proof -
    have "card (dom allSchemas - set needed) \<le> card (dom allSchemas)"
      using assms(1) by (intro card_mono) auto
    then have "card (dom allSchemas - set needed) \<le> fuel" using assms(2) by simp
    then obtain needed' where n: "collectSchemaRefs fuel name allSchemas needed = Some needed'"
      using collect_enough_fuel(1) [OF assms(1)] by blast
    then show ?thesis using collect_mono_distinct(1) [OF n] d by blast
  qed
  have c: "collectSchemaRefs 0 name allSchemas needed = Some needed" if "name \<in> set needed"
    for name needed
    using that by (simp add: collectSchemaRefs.simps)
  show ?thesis using a b c by blast
qed

theorem collection_terminates_witness:
  "finite (dom cyclicSchemas) \<and> card (dom cyclicSchemas) \<le> 3 \<and>
   map_option (map siName)
     (collectSchemas 3 [methodWithRefs (Some ''Comment'') (Some ''Channel'')] cyclicSchemas)
     = Some [''Account'', ''Channel'', ''Comment''] \<and>
   collectSchemaRefs 3 ''Channel'' cyclicSchemas [] = Some [''Account'', ''Channel''] \<and>
   collectSchemaRefs 0 ''Channel'' cyclicSchemas [''Account'', ''Channel'']
     = Some [''Account'', ''Channel'']"
proof -
  have f: "finite (dom cyclicSchemas)" by (simp add: cyclicSchemas_def)
  have c: "card (dom cyclicSchemas) \<le> 3" by (simp add: cyclicSchemas_def)
  have e1: "map_option (map siName)
     (collectSchemas 3 [methodWithRefs (Some ''Comment'') (Some ''Channel'')] cyclicSchemas)
     = Some [''Account'', ''Channel'', ''Comment'']"
    by code_simp
  have e2: "collectSchemaRefs 3 ''Channel'' cyclicSchemas [] = Some [''Account'', ''Channel'']"
    by code_simp
  show ?thesis
    using collection_terminates [OF f c, of "[methodWithRefs (Some ''Comment'') (Some ''Channel'')]"]
          f c e1 e2
    by auto
qed



text \<open>
  Claim C5. A reference to a name that is not in the schema table is skipped: the call
  returns the collected names unchanged and fails in no way; a schema node whose reference
  is dangling is traversed exactly as the same node without the reference, and a method
  whose response reference is dangling exactly as a method without a response; the dangling
  name is in no result of \<open>collectSchemas\<close>; and collection as a whole still returns.
\<close>

theorem dangling_references_are_skipped:
  assumes "allSchemas name = None"
  shows "collectSchemaRefs fuel name allSchemas needed = Some needed \<and>
     collectSchemaRefsFromSchema fuel (Schema i t f d props items ap name df en rq ro an)
         allSchemas needed
       = collectSchemaRefsFromSchema fuel (Schema i t f d props items ap [] df en rq ro an)
           allSchemas needed \<and>
     collectMethodRefs fuel (m\<lparr>miMethod := (miMethod m)\<lparr>Response := Some name\<rparr>\<rparr> # ms)
         allSchemas needed
       = collectMethodRefs fuel (m\<lparr>miMethod := (miMethod m)\<lparr>Response := None\<rparr>\<rparr> # ms)
           allSchemas needed \<and>
     (\<forall>result. collectSchemas fuel methods allSchemas = Some result \<longrightarrow>
        name \<notin> set (map siName result)) \<and>
     (finite (dom allSchemas) \<and> card (dom allSchemas) \<le> fuel \<longrightarrow>
        (\<exists>result. collectSchemas fuel methods allSchemas = Some result))"
proof -
  have skip: "collectSchemaRefs fuel name allSchemas N = Some N" for N
    using assms by (simp add: collectSchemaRefs.simps)
  have a: "collectSchemaRefsFromSchema fuel (Schema i t f d props items ap name df en rq ro an)
         allSchemas needed
       = collectSchemaRefsFromSchema fuel (Schema i t f d props items ap [] df en rq ro an)
           allSchemas needed"
    using skip by simp
  have b: "collectMethodRefs fuel (m\<lparr>miMethod := (miMethod m)\<lparr>Response := Some name\<rparr>\<rparr> # ms)
         allSchemas needed
       = collectMethodRefs fuel (m\<lparr>miMethod := (miMethod m)\<lparr>Response := None\<rparr>\<rparr> # ms)
           allSchemas needed"
  proof -
    have "(if name \<noteq> [] then collectSchemaRefs fuel name allSchemas N else Some N) = Some N"
      for N by (simp add: skip)
    then show ?thesis by simp
  qed
  have c: "name \<notin> set (map siName result)"
    if r: "collectSchemas fuel methods allSchemas = Some result" for result
  proof -
    obtain N where "set N = reachableSchemas allSchemas (methodRefs methods)"
      "map siName result = sort N"
      using collectSchemas_result [OF r] by blast
    then have "set (map siName result) \<subseteq> dom allSchemas"
      using reachableSchemas_dom by simp
    then show ?thesis using assms by auto
  qed
  have d: "finite (dom allSchemas) \<and> card (dom allSchemas) \<le> fuel \<longrightarrow>
        (\<exists>result. collectSchemas fuel methods allSchemas = Some result)"
    using collectSchemas_enough_fuel by blast
  show ?thesis using skip a b c d by blast
qed

theorem dangling_references_are_skipped_witness:
  "listSchemas ''Missing'' = None \<and>
   collectSchemaRefs 5 ''Missing'' listSchemas [''Label''] = Some [''Label''] \<and>
   finite (dom listSchemas) \<and> card (dom listSchemas) \<le> 5 \<and>
   map_option (map siName)
     (collectSchemas 5 [methodWithRefs (Some ''Missing'') (Some ''Video'')] listSchemas)
     = Some [''Video''] \<and>
   collectSchemaRefsFromSchema 5 (refSchema ''Missing'') listSchemas [''Label'']
     = collectSchemaRefsFromSchema 5 (refSchema []) listSchemas [''Label'']"
proof -
  have n: "listSchemas ''Missing'' = None" by (simp add: listSchemas_def)
  have f: "finite (dom listSchemas)" by (simp add: listSchemas_def)
  have c: "card (dom listSchemas) \<le> 5" by (simp add: listSchemas_def)
  have e: "map_option (map siName)
     (collectSchemas 5 [methodWithRefs (Some ''Missing'') (Some ''Video'')] listSchemas)
     = Some [''Video'']"
    by code_simp
  show ?thesis
    using dangling_references_are_skipped
            [where allSchemas = listSchemas and name = "''Missing''" and fuel = 5
               and needed = "[''Label'']" and i = "[]" and t = "[]" and f = "[]" and d = "[]"
               and props = "[]" and items = None and ap = None and df = "[]" and en = "[]"
               and rq = False and ro = False and an = None
               and methods = "[methodWithRefs (Some ''Missing'') (Some ''Video'')]", OF n]
          n f c e
    by (simp add: refSchema_def)
qed

section \<open>Claims about generation\<close>

text \<open>
  Claim C4. When the explicit method list of the options contains a name that is not in the
  flattened method table, generation returns the empty string together with a
  method-not-found error for such a name. The result is the same for every amount of fuel
  (also none), every template executor, every formatter and every schema table: nothing of
  schema collection, rendering or formatting contributes to it.
\<close>

theorem unknown_method_fails_first:
  assumes "\<exists>name \<in> set (Methods opts). name \<notin> fst ` set (AllMethods doc)"
  shows "\<exists>name \<in> set (Methods opts). name \<notin> fst ` set (AllMethods doc) \<and>
           (\<forall>fuel execute formatSource schemas.
              GenerateMCPTools fuel execute formatSource (doc\<lparr>dSchemas := schemas\<rparr>) opts
                = Some ([], Some (MethodNotFound name)))"
proof -
  define opts1 where "opts1 = (if PackageName opts = [] then opts\<lparr>PackageName := ''tools''\<rparr> else opts)"
  define opts2 where "opts2 = (\<lambda>doc :: Document. if oPrefix opts1 = [] then opts1\<lparr>oPrefix := dName doc @ ''_''\<rparr> else opts1)"
  define opts3 where "opts3 = (\<lambda>doc. if oStructPrefix (opts2 doc) = [] then (opts2 doc)\<lparr>oStructPrefix := ''API''\<rparr> else opts2 doc)"
  have m: "Methods (opts3 d) = Methods opts" for d
    by (simp add: opts3_def opts2_def opts1_def)
  have ne: "Methods opts \<noteq> []" using assms by auto
  have am: "AllMethods (doc\<lparr>dSchemas := schemas\<rparr>) = AllMethods doc" for schemas
    by (simp add: AllMethods_def)
  obtain name where n: "name \<in> set (Methods opts)" "name \<notin> fst ` set (AllMethods doc)"
    and s: "\<And>opts'. selectMethods (AllMethods doc) opts' (Methods opts) [] = Inl (MethodNotFound name)"
    using selectMethods_missing [OF assms] by blast
  have "GenerateMCPTools fuel execute formatSource (doc\<lparr>dSchemas := schemas\<rparr>) opts
                = Some ([], Some (MethodNotFound name))" for fuel execute formatSource schemas
    using s [of "opts3 (doc\<lparr>dSchemas := schemas\<rparr>)"] ne m [of "doc\<lparr>dSchemas := schemas\<rparr>"]
    unfolding GenerateMCPTools_def Let_def am opts3_def opts2_def opts1_def
    by simp
  then show ?thesis using n by blast
qed

theorem unknown_method_fails_first_witness:
  "(\<exists>name \<in> set (Methods (testOptions [''videos.list'', ''videos.rate''] True)).
      name \<notin> fst ` set (AllMethods testDocument)) \<and>
   GenerateMCPTools 0 executeOk formatOk testDocument
     (testOptions [''videos.list'', ''videos.rate''] True)
     = Some ([], Some (MethodNotFound ''videos.rate''))"
proof -
  have am: "AllMethods testDocument =
    [(''videos.list'', \<lparr>mDescription = ''List videos'', Parameters = [], ParameterOrder = [],
                          Request = None, Response = Some ''VideoList''\<rparr>)]"
    by (simp add: AllMethods_def testDocument_def)
  have h: "\<exists>name \<in> set (Methods (testOptions [''videos.list'', ''videos.rate''] True)).
      name \<notin> fst ` set (AllMethods testDocument)"
    by (simp add: am testOptions_def)
  obtain name where n: "name \<in> set (Methods (testOptions [''videos.list'', ''videos.rate''] True))"
    "name \<notin> fst ` set (AllMethods testDocument)"
    "\<And>fuel execute formatSource schemas. GenerateMCPTools fuel execute formatSource
        (testDocument\<lparr>dSchemas := schemas\<rparr>) (testOptions [''videos.list'', ''videos.rate''] True)
       = Some ([], Some (MethodNotFound name))"
    using unknown_method_fails_first [OF h] by blast
  have "name = ''videos.rate''" using n(1) n(2) by (auto simp: am testOptions_def)
  moreover have "testDocument\<lparr>dSchemas := dSchemas testDocument\<rparr> = testDocument" by simp
  ultimately show ?thesis using h n(3) [of 0 executeOk formatOk "dSchemas testDocument"] by simp
qed

text \<open>
  Claim C8, as amended. Once every selected method name has been found (and with fuel for
  schema collection), generation hands one template data value, fixed by the document and
  the options, to the template, and has exactly two failure modes left: if executing the
  template fails, the result is the empty string and a template error; if it yields a text
  that the formatter rejects, the result is that unformatted text and a syntax error; if
  both succeed, the result is the formatted text and no error.
\<close>

theorem render_and_format_failures:
  assumes "\<forall>name \<in> set (Methods opts). name \<in> fst ` set (AllMethods doc)"
    and "finite (dom (dSchemas doc))" and "card (dom (dSchemas doc)) \<le> fuel"
  shows "\<exists>data.
           tPackageName data = (if PackageName opts = [] then ''tools'' else PackageName opts) \<and>
           tAPIName data = dName doc \<and> tAPITitle data = dTitle doc \<and>
           tAPIVersion data = dVersion doc \<and> tAllSchemas data = dSchemas doc \<and>
           tGenerateSchema data = GenerateSchema opts \<and>
           (\<forall>execute formatSource.
           (\<forall>err. execute data = Inl err \<longrightarrow>
              GenerateMCPTools fuel execute formatSource doc opts
                = Some ([], Some (TemplateExecutionFailed err))) \<and>
           (\<forall>buf err. execute data = Inr buf \<and> formatSource buf = Inl err \<longrightarrow>
              GenerateMCPTools fuel execute formatSource doc opts
                = Some (buf, Some (SyntaxErrors err))) \<and>
           (\<forall>buf formatted. execute data = Inr buf \<and> formatSource buf = Inr formatted \<longrightarrow>
              GenerateMCPTools fuel execute formatSource doc opts = Some (formatted, None)))"
proof -
  define opts1 where "opts1 = (if PackageName opts = [] then opts\<lparr>PackageName := ''tools''\<rparr> else opts)"
  define opts2 where "opts2 = (if oPrefix opts1 = [] then opts1\<lparr>oPrefix := dName doc @ ''_''\<rparr> else opts1)"
  define opts3 where "opts3 = (if oStructPrefix opts2 = [] then opts2\<lparr>oStructPrefix := ''API''\<rparr> else opts2)"
  define names where "names = (if length (Methods opts3) = 0 then SortedMethodNames doc else Methods opts3)"
  have m: "Methods opts3 = Methods opts"
    by (simp add: opts3_def opts2_def opts1_def)
  have "\<forall>name \<in> set names. name \<in> fst ` set (AllMethods doc)"
    using assms(1) by (auto simp: names_def m SortedMethodNames_def)
  then obtain ms where ms: "selectMethods (AllMethods doc) opts3 names [] = Inr ms"
    using selectMethods_present [of names "AllMethods doc" opts3 "[]"] by auto
  obtain schemasToGen where sg:
    "(if GenerateSchema opts3 then collectSchemas fuel ms (dSchemas doc) else Some []) = Some schemasToGen"
    using collectSchemas_enough_fuel [OF assms(2) assms(3), of ms] by (cases "GenerateSchema opts3") auto
  define data where "data = \<lparr>tPackageName = PackageName opts3, tAPIName = dName doc,
                              tAPITitle = dTitle doc, tAPIVersion = dVersion doc,
                              tMethods = ms, tSchemas = dSchemas doc,
                              tSchemasToGen = schemasToGen, tAllSchemas = dSchemas doc,
                              tGenerateSchema = GenerateSchema opts3\<rparr>"
  have g: "GenerateMCPTools fuel execute formatSource doc opts =
        (case execute data of
           Inl err \<Rightarrow> Some ([], Some (TemplateExecutionFailed err))
         | Inr buf \<Rightarrow>
             (case formatSource buf of
                Inl err \<Rightarrow> Some (buf, Some (SyntaxErrors err))
              | Inr formatted \<Rightarrow> Some (formatted, None)))" for execute formatSource
    unfolding GenerateMCPTools_def Let_def
    unfolding opts1_def [symmetric] opts2_def [symmetric] opts3_def [symmetric] names_def [symmetric]
    by (simp add: ms sg data_def)
  have "tPackageName data = (if PackageName opts = [] then ''tools'' else PackageName opts)"
    "tGenerateSchema data = GenerateSchema opts"
    by (simp_all add: data_def opts3_def opts2_def opts1_def)
  then show ?thesis
    by (intro exI [of _ data]) (simp add: g, simp add: data_def)
qed

theorem render_and_format_failures_witness:
  "set (Methods (testOptions [''videos.list''] True)) \<subseteq> fst ` set (AllMethods testDocument) \<and>
   finite (dom (dSchemas testDocument)) \<and> card (dom (dSchemas testDocument)) \<le> 5 \<and>
   GenerateMCPTools 5 executeFail formatOk testDocument (testOptions [''videos.list''] True)
     = Some ([], Some (TemplateExecutionFailed ''template: error calling method'')) \<and>
   GenerateMCPTools 5 executeOk formatFail testDocument (testOptions [''videos.list''] True)
     = Some (''package tools'', Some (SyntaxErrors ''1:1: expected declaration'')) \<and>
   GenerateMCPTools 5 executeOk formatOk testDocument (testOptions [''videos.list''] True)
     = Some (''package tools'' @ [CHR 0x0A], None)"
proof -
  have am: "AllMethods testDocument =
    [(''videos.list'', \<lparr>mDescription = ''List videos'', Parameters = [], ParameterOrder = [],
                          Request = None, Response = Some ''VideoList''\<rparr>)]"
    by (simp add: AllMethods_def testDocument_def)
  have h: "\<forall>name \<in> set (Methods (testOptions [''videos.list''] True)).
      name \<in> fst ` set (AllMethods testDocument)"
    by (simp add: am testOptions_def)
  have f: "finite (dom (dSchemas testDocument))"
    by (simp add: testDocument_def listSchemas_def)
  have c: "card (dom (dSchemas testDocument)) \<le> 5"
    by (simp add: testDocument_def listSchemas_def)
  obtain data where d: "tPackageName data =
      (if PackageName (testOptions [''videos.list''] True) = [] then ''tools''
       else PackageName (testOptions [''videos.list''] True))"
    and modes: "\<And>execute formatSource.
           (\<forall>err. execute data = Inl err \<longrightarrow>
              GenerateMCPTools 5 execute formatSource testDocument (testOptions [''videos.list''] True)
                = Some ([], Some (TemplateExecutionFailed err))) \<and>
           (\<forall>buf err. execute data = Inr buf \<and> formatSource buf = Inl err \<longrightarrow>
              GenerateMCPTools 5 execute formatSource testDocument (testOptions [''videos.list''] True)
                = Some (buf, Some (SyntaxErrors err))) \<and>
           (\<forall>buf formatted. execute data = Inr buf \<and> formatSource buf = Inr formatted \<longrightarrow>
              GenerateMCPTools 5 execute formatSource testDocument (testOptions [''videos.list''] True)
                = Some (formatted, None))"
    using render_and_format_failures [OF h f c] by blast
  have p: "tPackageName data = ''tools''" using d by (simp add: testOptions_def)
  have "GenerateMCPTools 5 executeFail formatOk testDocument (testOptions [''videos.list''] True)
     = Some ([], Some (TemplateExecutionFailed ''template: error calling method''))"
    using modes [of executeFail formatOk] by (simp add: executeFail_def)
  moreover have "GenerateMCPTools 5 executeOk formatFail testDocument (testOptions [''videos.list''] True)
     = Some (''package tools'', Some (SyntaxErrors ''1:1: expected declaration''))"
    using modes [of executeOk formatFail] p by (simp add: executeOk_def formatFail_def)
  moreover have "GenerateMCPTools 5 executeOk formatOk testDocument (testOptions [''videos.list''] True)
     = Some (''package tools'' @ [CHR 0x0A], None)"
    using modes [of executeOk formatOk] p by (simp add: executeOk_def formatOk_def)
  moreover have "set (Methods (testOptions [''videos.list''] True))
                   \<subseteq> fst ` set (AllMethods testDocument)"
    using h by blast
  ultimately show ?thesis using f c by blast
qed

text \<open>
  Claim C8 as stated counts two failure modes; the lookup of the selected methods is a
  third one. Here template execution and formatting are the stand-ins that succeed on
  every input, and generation still returns an error and no text.
\<close>

theorem third_failure_mode_counterexample:
  "GenerateMCPTools 5 executeOk formatOk testDocument (testOptions [''videos.rate''] False)
     = Some ([], Some (MethodNotFound ''videos.rate''))"
proof -
  have am: "AllMethods testDocument =
    [(''videos.list'', \<lparr>mDescription = ''List videos'', Parameters = [], ParameterOrder = [],
                          Request = None, Response = Some ''VideoList''\<rparr>)]"
    by (simp add: AllMethods_def testDocument_def)
  show ?thesis
    by (simp add: GenerateMCPTools_def am testOptions_def)
qed

section \<open>Claims about ordering\<close>

text \<open>
  Claim C7, as amended. For entries with distinct names, the sorted parameters and the
  sorted properties are the entries of the map, ordered so that: every required entry
  precedes every entry that is not required; among parameters of equal requiredness
  (required or not), a name in the method's parameter order never comes after a name
  absent from it, names in the parameter order come by their position in it, and entries
  with equal position (as all names absent from the parameter order have) come by name;
  among properties of equal requiredness the order is by name. For the schema with the
  properties zebra, alpha, required and beta, in any enumeration, where only \<open>required\<close> is
  required, the order is required, alpha, beta, zebra.
\<close>

theorem sorted_orders:
  assumes "distinct (map fst (Parameters (miMethod m)))"
    and "distinct (map fst (Properties (siSchema s)))"
  shows
   "mset (map (\<lambda>p. (paName p, paParam p)) (SortedParams m)) = mset (Parameters (miMethod m)) \<and>
    sorted_wrt
      (\<lambda>a b. (pRequired (paParam b) \<longrightarrow> pRequired (paParam a)) \<and>
              (pRequired (paParam a) = pRequired (paParam b) \<longrightarrow>
                 (paName a \<in> set (ParameterOrder (miMethod m)) \<or>
                  paName b \<notin> set (ParameterOrder (miMethod m))) \<and>
                 (paName a \<in> set (ParameterOrder (miMethod m)) \<and>
                  paName b \<in> set (ParameterOrder (miMethod m)) \<longrightarrow>
                    indexOf (ParameterOrder (miMethod m)) (paName a)
                      \<le> indexOf (ParameterOrder (miMethod m)) (paName b)) \<and>
                 (indexOf (ParameterOrder (miMethod m)) (paName a)
                    = indexOf (ParameterOrder (miMethod m)) (paName b) \<longrightarrow>
                    paName a < paName b)))
      (SortedParams m) \<and>
    mset (map (\<lambda>p. (piName p, piProperty p)) (SortedProperties s)) = mset (Properties (siSchema s)) \<and>
    sorted_wrt
      (\<lambda>a b. (piRequired b \<longrightarrow> piRequired a) \<and>
              (piRequired a = piRequired b \<longrightarrow> piName a < piName b))
      (SortedProperties s) \<and>
    (mset ps = mset exampleProperties \<longrightarrow>
       map piName (SortedProperties (NewSchemaInfo ''TestSchema'' (exampleSchema ps) allSchemas))
         = [''required'', ''alpha'', ''beta'', ''zebra''])"
proof -
  have a: "sorted_wrt
      (\<lambda>a b. (pRequired (paParam b) \<longrightarrow> pRequired (paParam a)) \<and>
              (pRequired (paParam a) = pRequired (paParam b) \<longrightarrow>
                 (paName a \<in> set (ParameterOrder (miMethod m)) \<or>
                  paName b \<notin> set (ParameterOrder (miMethod m))) \<and>
                 (paName a \<in> set (ParameterOrder (miMethod m)) \<and>
                  paName b \<in> set (ParameterOrder (miMethod m)) \<longrightarrow>
                    indexOf (ParameterOrder (miMethod m)) (paName a)
                      \<le> indexOf (ParameterOrder (miMethod m)) (paName b)) \<and>
                 (indexOf (ParameterOrder (miMethod m)) (paName a)
                    = indexOf (ParameterOrder (miMethod m)) (paName b) \<longrightarrow>
                    paName a < paName b)))
      (SortedParams m)"
    by (rule sorted_wrt_mono_rel [OF _ SortedParams_sorted [OF assms(1)]])
       (rule paramLess_order)
  have b: "sorted_wrt
      (\<lambda>a b. (piRequired b \<longrightarrow> piRequired a) \<and>
              (piRequired a = piRequired b \<longrightarrow> piName a < piName b))
      (SortedProperties s)"
    by (rule sorted_wrt_mono_rel [OF _ SortedProperties_sorted [OF assms(2)]])
       (rule propertyLess_order)
  show ?thesis
    using a b SortedParams_mset [of m] SortedProperties_mset [of s] example_order [of ps allSchemas]
    by blast
qed

theorem sorted_orders_witness:
  "distinct (map fst (Parameters (miMethod (methodWithParams
      [(''maxResults'', param ''integer'' False False), (''part'', param ''string'' True False),
       (''onBehalfOf'', param ''string'' False False), (''id'', param ''string'' True False),
       (''chart'', param ''string'' True False)]
      [''part'', ''id''])))) \<and>
   distinct (map fst (Properties (siSchema
      (NewSchemaInfo ''TestSchema'' (exampleSchema exampleProperties) Map.empty)))) \<and>
   map paName (SortedParams (methodWithParams
      [(''maxResults'', param ''integer'' False False), (''part'', param ''string'' True False),
       (''onBehalfOf'', param ''string'' False False), (''id'', param ''string'' True False),
       (''chart'', param ''string'' True False)]
      [''part'', ''id'']))
     = [''part'', ''id'', ''chart'', ''maxResults'', ''onBehalfOf''] \<and>
   mset (rev exampleProperties) = mset exampleProperties \<and>
   map piName (SortedProperties
      (NewSchemaInfo ''TestSchema'' (exampleSchema (rev exampleProperties)) Map.empty))
     = [''required'', ''alpha'', ''beta'', ''zebra'']"
proof -
  have d1: "distinct (map fst (Parameters (miMethod (methodWithParams
      [(''maxResults'', param ''integer'' False False), (''part'', param ''string'' True False),
       (''onBehalfOf'', param ''string'' False False), (''id'', param ''string'' True False),
       (''chart'', param ''string'' True False)]
      [''part'', ''id'']))))"
    by (simp add: methodWithParams_def)
  have d2: "distinct (map fst (Properties (siSchema
      (NewSchemaInfo ''TestSchema'' (exampleSchema exampleProperties) Map.empty))))"
    by (simp add: NewSchemaInfo_def exampleSchema_def exampleProperties_def)
  have e: "map paName (SortedParams (methodWithParams
      [(''maxResults'', param ''integer'' False False), (''part'', param ''string'' True False),
       (''onBehalfOf'', param ''string'' False False), (''id'', param ''string'' True False),
       (''chart'', param ''string'' True False)]
      [''part'', ''id'']))
     = [''part'', ''id'', ''chart'', ''maxResults'', ''onBehalfOf'']"
    by (simp add: SortedParams_def sortSlice_def paramLess_def indexOf_def param_def
          methodWithParams_def)
  have p: "mset (rev exampleProperties) = mset exampleProperties" by simp
  show ?thesis
    using sorted_orders [OF d1 d2, of "rev exampleProperties" Map.empty] d1 d2 e p
    by blast
qed

text \<open>
  Claim C7 as stated puts all non-required entries in name order. The comparison consults
  the parameter order before the name whatever the requiredness: two optional parameters
  listed in the parameter order as beta, alpha are emitted as beta, alpha.
\<close>

theorem optional_parameters_follow_parameter_order_counterexample:
  "map paName (SortedParams (methodWithParams
      [(''alpha'', param ''string'' False False), (''beta'', param ''string'' False False)]
      [''beta'', ''alpha'']))
     = [''beta'', ''alpha''] \<and>
   \<not> pRequired (param ''string'' False False) \<and> ''alpha'' < ''beta''"
  by (simp add: SortedParams_def sortSlice_def paramLess_def indexOf_def param_def
        methodWithParams_def)

section \<open>Claims about determinism\<close>




end
